theory Spec2Isabelle
  imports Complex_Main "HOL-Library.Word"
begin

section \<open>JavaScript numbers\<close>

text \<open>
  A JavaScript Number is an IEEE 754 binary64 value. The program only handles finite
  quantities of moderate size (pixel coordinates, colour channels, a z-index counter), far
  from the overflow and underflow thresholds, so a number is modelled as the real it
  denotes and every arithmetic operation rounds its exact result to the nearest real with
  a 53-bit significand, ties to even (\<open>fl\<close>). NaN and the infinities do not arise from
  such inputs and are not modelled; the exponent range is unbounded.
\<close>

type_synonym num = real

definition roundTiesToEven :: "real \<Rightarrow> int" where
  "roundTiesToEven x =
     (let f = \<lfloor>x\<rfloor> in
      if x - of_int f < 1 / 2 then f
      else if 1 / 2 < x - of_int f then f + 1
      else if even f then f else f + 1)"

definition ulp_of :: "real \<Rightarrow> real" where
  "ulp_of x = 2 powr (of_int (\<lfloor>log 2 \<bar>x\<bar>\<rfloor> - 52))"

definition fl :: "real \<Rightarrow> num" where
  "fl x = (if x = 0 then 0 else of_int (roundTiesToEven (x / ulp_of x)) * ulp_of x)"

definition jadd :: "num \<Rightarrow> num \<Rightarrow> num" where
  "jadd a b = fl (a + b)"

definition jsub :: "num \<Rightarrow> num \<Rightarrow> num" where
  "jsub a b = fl (a - b)"

definition jmul :: "num \<Rightarrow> num \<Rightarrow> num" where
  "jmul a b = fl (a * b)"

definition jdiv :: "num \<Rightarrow> num \<Rightarrow> num" where
  "jdiv a b = fl (a / b)"

definition jsqrt :: "num \<Rightarrow> num" where
  "jsqrt a = fl (sqrt a)"

section \<open>The page: elements, listeners, timers\<close>

text \<open>
  An element is referred to by its \<open>id\<close> attribute (every window of the page has a
  unique one), and \<open>document.getElementById\<close> is the partial map \<open>elems\<close>. A reference
  held by the program designates an element of the page. What the browser computes from
  an element (its bounding box and its computed \<open>display\<close>) is the function \<open>render\<close>
  of the page: the program reads it and never writes it. \<open>body_drawn_mode\<close> is the
  class \<open>drawn-mode\<close> of the body, \<open>toggle_icon\<close> the text of the \<open>.toggle-icon\<close> child
  of the mode toggle button (if it has one), \<open>stored_drawingMode\<close> the entry
  \<open>drawingMode\<close> of the local storage, which may refuse access (\<open>localStorage_ok\<close>).
\<close>

type_synonym elem_ref = string

datatype blocker_kind = InteractionBlocker | KeyBlocker | SubmitBlocker | ContextMenuBlocker

text \<open>
  Function objects are compared by identity. The two arrow-function properties of the
  window manager are one object each; every evaluation of a function expression creates a
  fresh object, numbered by the allocation counter \<open>next_fn\<close> of the page.
\<close>

datatype fn_obj =
    HandleDragFn
  | StopDragFn
  | BlockerFn blocker_kind nat
  | HeaderPointerDownFn nat
  | WindowPointerDownFn nat
  | DrawnPointerDownFn nat
  | OtherFn nat

text \<open>A registered listener: event type, callback, capture flag.\<close>

type_synonym listener = "string \<times> fn_obj \<times> bool"

definition addEventListener :: "listener list \<Rightarrow> listener \<Rightarrow> listener list" where
  "addEventListener ls l = (if l \<in> set ls then ls else ls @ [l])"

definition removeEventListener :: "listener list \<Rightarrow> listener \<Rightarrow> listener list" where
  "removeEventListener ls l = removeAll l ls"

record header =
  hd_cursor :: string
  hd_userSelect :: string
  hd_webkitUserSelect :: string
  hd_touchAction :: string
  hd_listeners :: "listener list"

record element =
  cls_active :: bool
  style_left :: "num option"
  style_top :: "num option"
  style_transform :: string
  style_margin :: string
  style_transition :: string
  style_zIndex :: "num option"
  style_userSelect :: string
  style_webkitUserSelect :: string
  style_touchAction :: string
  el_header :: "header option"
  el_listeners :: "listener list"

record rendered =
  r_left :: num
  r_top :: num
  r_width :: num
  r_height :: num
  r_display :: string

datatype timer_cb = RestoreTransition

datatype app_call = StartWebcam | SetupDrawingCanvas

record page =
  elems :: "elem_ref \<rightharpoonup> element"
  render :: "elem_ref \<Rightarrow> element \<Rightarrow> rendered"
  innerWidth :: num
  innerHeight :: num
  doc_listeners :: "listener list"
  next_fn :: nat
  body_userSelect :: string
  body_webkitUserSelect :: string
  body_drawn_mode :: bool
  toggle_icon :: "string option"
  localStorage_ok :: bool
  stored_drawingMode :: "string option"
  timers :: "(timer_cb \<times> num) list"
  desktopApps_present :: bool
  app_calls :: "app_call list"

record pointer_event =
  clientX :: num
  clientY :: num
  defaultPrevented :: bool
  propagationStopped :: bool

definition upd_elem :: "page \<Rightarrow> elem_ref \<Rightarrow> (element \<Rightarrow> element) \<Rightarrow> page" where
  "upd_elem pg r f =
     (case elems pg r of
        None \<Rightarrow> pg
      | Some el \<Rightarrow> pg\<lparr>elems := (elems pg)(r \<mapsto> f el)\<rparr>)"

definition preventDefault :: "pointer_event \<Rightarrow> pointer_event" where
  "preventDefault e = e\<lparr>defaultPrevented := True\<rparr>"

definition stopPropagation :: "pointer_event \<Rightarrow> pointer_event" where
  "stopPropagation e = e\<lparr>propagationStopped := True\<rparr>"

section \<open>WindowManager\<close>

record win_info =
  wi_element :: elem_ref
  wi_zIndex :: num

text \<open>
  The z-index counter is a Number that starts at 100; \<open>this.currentZIndex++\<close> adds one
  in binary64 arithmetic, which is exact up to \<open>2 ^ 53\<close> and loses the increment there.
\<close>

record wm_state =
  windows :: "string \<rightharpoonup> win_info"
  baseZIndex :: num
  currentZIndex :: num
  activeWindow :: "elem_ref option"
  isDragging :: bool
  dragStartX :: num
  dragStartY :: num
  windowStartX :: num
  windowStartY :: num

definition wm_constructor :: wm_state where
  "wm_constructor =
     \<lparr>windows = Map.empty, baseZIndex = 100, currentZIndex = 100, activeWindow = None,
      isDragging = False, dragStartX = 0, dragStartY = 0, windowStartX = 0, windowStartY = 0\<rparr>"

text \<open>\<open>centerWindowNow(windowEl)\<close>: only the page changes.\<close>

definition centerWindowNow :: "page \<Rightarrow> elem_ref option \<Rightarrow> page" where
  "centerWindowNow pg windowEl =
     (case windowEl of
        None \<Rightarrow> pg
      | Some r \<Rightarrow>
          (case elems pg r of
             None \<Rightarrow> pg
           | Some el \<Rightarrow>
               let rect = render pg r el;
                   windowWidth = r_width rect;
                   windowHeight = r_height rect;
                   centerX = jdiv (jsub (innerWidth pg) windowWidth) 2;
                   centerY = jdiv (jsub (innerHeight pg) windowHeight) 2
               in upd_elem pg r (\<lambda>el. el\<lparr>style_left := Some centerX, style_top := Some centerY,
                                          style_transform := ''none'', style_margin := ''0''\<rparr>)))"

definition setupWindow :: "wm_state \<times> page \<Rightarrow> elem_ref option \<Rightarrow> wm_state \<times> page" where
  "setupWindow s windowEl =
     (case windowEl of
        None \<Rightarrow> s
      | Some r \<Rightarrow>
          (case elems (snd s) r of
             None \<Rightarrow> s
           | Some el \<Rightarrow>
               let pg1 = (if cls_active el \<or> r_display (render (snd s) r el) \<noteq> ''none''
                          then centerWindowNow (snd s) (Some r) else snd s)
               in ((fst s)\<lparr>windows := (windows (fst s))
                            (r \<mapsto> \<lparr>wi_element = r, wi_zIndex = baseZIndex (fst s)\<rparr>)\<rparr>, pg1)))"

definition makeWindowDraggable :: "wm_state \<times> page \<Rightarrow> elem_ref option \<Rightarrow> wm_state \<times> page" where
  "makeWindowDraggable s windowEl =
     (case windowEl of
        None \<Rightarrow> s
      | Some r \<Rightarrow>
          (case elems (snd s) r of
             None \<Rightarrow> s
           | Some el \<Rightarrow>
               (case el_header el of
                  None \<Rightarrow> s
                | Some h \<Rightarrow>
                    let n = next_fn (snd s);
                        h1 = h\<lparr>hd_userSelect := ''none'', hd_webkitUserSelect := ''none'',
                               hd_cursor := ''grab'', hd_touchAction := ''none'',
                               hd_listeners := addEventListener (hd_listeners h)
                                 (''pointerdown'', HeaderPointerDownFn n, False)\<rparr>;
                        el1 = el\<lparr>el_header := Some h1,
                                 el_listeners := addEventListener (el_listeners el)
                                   (''pointerdown'', WindowPointerDownFn (Suc n), False)\<rparr>
                    in (fst s, (snd s)\<lparr>elems := (elems (snd s))(r \<mapsto> el1),
                                       next_fn := Suc (Suc n)\<rparr>))))"

definition bringToFront :: "wm_state \<times> page \<Rightarrow> elem_ref option \<Rightarrow> wm_state \<times> page" where
  "bringToFront s windowEl =
     (case windowEl of
        None \<Rightarrow> s
      | Some r \<Rightarrow>
          let z = jadd (currentZIndex (fst s)) 1;
              wm1 = (fst s)\<lparr>currentZIndex := z\<rparr>;
              pg1 = upd_elem (snd s) r (\<lambda>el. el\<lparr>style_zIndex := Some z\<rparr>);
              wm2 = (case windows wm1 r of
                       None \<Rightarrow> wm1
                     | Some wi \<Rightarrow> wm1\<lparr>windows := (windows wm1)(r \<mapsto> wi\<lparr>wi_zIndex := z\<rparr>)\<rparr>)
          in (wm2, pg1))"

definition set_header_cursor :: "string \<Rightarrow> element \<Rightarrow> element" where
  "set_header_cursor c el =
     (case el_header el of
        None \<Rightarrow> el
      | Some h \<Rightarrow> el\<lparr>el_header := Some (h\<lparr>hd_cursor := c\<rparr>)\<rparr>)"

definition startDrag ::
  "wm_state \<times> page \<Rightarrow> elem_ref \<Rightarrow> pointer_event \<Rightarrow> (wm_state \<times> page) \<times> pointer_event" where
  "startDrag s r e =
     (case elems (snd s) r of
        None \<Rightarrow> (s, e)
      | Some el0 \<Rightarrow>
          let e1 = stopPropagation (preventDefault e);
              pg1 = upd_elem (snd s) r (set_header_cursor ''grabbing'');
              rect = render pg1 r (the (elems pg1 r));
              wm1 = (fst s)\<lparr>isDragging := True, activeWindow := Some r,
                             dragStartX := clientX e, dragStartY := clientY e,
                             windowStartX := r_left rect, windowStartY := r_top rect\<rparr>;
              pg2 = upd_elem pg1 r
                      (\<lambda>el. el\<lparr>style_left := Some (r_left rect), style_top := Some (r_top rect),
                                 style_transform := ''none'', style_margin := ''0'',
                                 style_transition := ''none''\<rparr>);
              s3 = bringToFront (wm1, pg2) (Some r);
              ls1 = addEventListener (doc_listeners (snd s3)) (''pointermove'', HandleDragFn, False);
              ls2 = addEventListener ls1 (''pointerup'', StopDragFn, False);
              ls3 = addEventListener ls2 (''pointercancel'', StopDragFn, False)
          in ((fst s3, (snd s3)\<lparr>doc_listeners := ls3, body_userSelect := ''none'',
                                  body_webkitUserSelect := ''none''\<rparr>), e1))"

definition handleDrag ::
  "wm_state \<times> page \<Rightarrow> pointer_event \<Rightarrow> (wm_state \<times> page) \<times> pointer_event" where
  "handleDrag s e =
     (if \<not> isDragging (fst s) \<or> activeWindow (fst s) = None then (s, e)
      else
        let e1 = stopPropagation (preventDefault e);
            windowEl = the (activeWindow (fst s))
        in (case elems (snd s) windowEl of
              None \<Rightarrow> (s, e1)
            | Some el \<Rightarrow>
                let deltaX = jsub (clientX e) (dragStartX (fst s));
                    deltaY = jsub (clientY e) (dragStartY (fst s));
                    newX = jadd (windowStartX (fst s)) deltaX;
                    newY = jadd (windowStartY (fst s)) deltaY;
                    rect = render (snd s) windowEl el;
                    windowWidth = r_width rect;
                    windowHeight = r_height rect;
                    minX = jadd (- windowWidth) 100;
                    minY = 0;
                    maxX = jsub (innerWidth (snd s)) 100;
                    maxY = jsub (innerHeight (snd s)) 50;
                    newX1 = max minX (min newX maxX);
                    newY1 = max minY (min newY maxY)
                in ((fst s, upd_elem (snd s) windowEl
                              (\<lambda>el. el\<lparr>style_left := Some newX1, style_top := Some newY1\<rparr>)), e1)))"

definition stopDrag ::
  "wm_state \<times> page \<Rightarrow> pointer_event \<Rightarrow> (wm_state \<times> page) \<times> pointer_event" where
  "stopDrag s e =
     (if \<not> isDragging (fst s) then (s, e)
      else
        let e1 = preventDefault e;
            wm1 = (fst s)\<lparr>isDragging := False\<rparr>;
            pg1 = (case activeWindow wm1 of
                     None \<Rightarrow> snd s
                   | Some r \<Rightarrow>
                       (upd_elem (snd s) r (set_header_cursor ''grab''))
                         \<lparr>timers := timers (snd s) @ [(RestoreTransition, 50)]\<rparr>);
            wm2 = wm1\<lparr>activeWindow := None\<rparr>;
            ls1 = removeEventListener (doc_listeners pg1) (''pointermove'', HandleDragFn, False);
            ls2 = removeEventListener ls1 (''pointerup'', StopDragFn, False);
            ls3 = removeEventListener ls2 (''pointercancel'', StopDragFn, False)
        in ((wm2, pg1\<lparr>doc_listeners := ls3, body_userSelect := '''',
                        body_webkitUserSelect := ''''\<rparr>), e1))"

definition showWindow :: "wm_state \<times> page \<Rightarrow> string \<Rightarrow> wm_state \<times> page" where
  "showWindow s windowId =
     (case elems (snd s) windowId of
        None \<Rightarrow> s
      | Some el0 \<Rightarrow>
          let s1 = (if windows (fst s) windowId = None
                    then makeWindowDraggable (setupWindow s (Some windowId)) (Some windowId)
                    else s);
              pg2 = upd_elem (snd s1) windowId (\<lambda>el. el\<lparr>cls_active := True\<rparr>);
              pg3 = centerWindowNow pg2 (Some windowId);
              s4 = bringToFront (fst s1, pg3) (Some windowId);
              calls = (if windowId = ''cameraWindow'' \<and> desktopApps_present (snd s4)
                       then [StartWebcam]
                       else if windowId = ''notepadWindow'' \<and> desktopApps_present (snd s4)
                       then [SetupDrawingCanvas] else [])
          in (fst s4, (snd s4)\<lparr>app_calls := app_calls (snd s4) @ calls\<rparr>))"

text \<open>
  A drag session: pointer-down on the handle of window \<open>r\<close>, the pointer-move events in
  order, then pointer-up or pointer-cancel.
\<close>

definition drag_moves :: "wm_state \<times> page \<Rightarrow> pointer_event list \<Rightarrow> wm_state \<times> page" where
  "drag_moves s moves = foldl (\<lambda>s e. fst (handleDrag s e)) s moves"

definition drag_session ::
  "wm_state \<times> page \<Rightarrow> elem_ref \<Rightarrow> pointer_event \<Rightarrow> pointer_event list \<Rightarrow> pointer_event
     \<Rightarrow> wm_state \<times> page" where
  "drag_session s r down moves up =
     fst (stopDrag (drag_moves (fst (startDrag s r down)) moves) up)"

definition position :: "wm_state \<times> page \<Rightarrow> elem_ref \<Rightarrow> (num option \<times> num option) option" where
  "position s r = map_option (\<lambda>el. (style_left el, style_top el)) (elems (snd s) r)"





subsection \<open>An example page\<close>

text \<open>
  One window \<open>win\<close> of 300 by 200 pixels with a header, laid out at (100, 100) until its
  inline style positions it, on a viewport of 1200 by 800 pixels.
\<close>

definition demo_render :: "elem_ref \<Rightarrow> element \<Rightarrow> rendered" where
  "demo_render r el =
     \<lparr>r_left = (case style_left el of None \<Rightarrow> 100 | Some x \<Rightarrow> x),
      r_top = (case style_top el of None \<Rightarrow> 100 | Some y \<Rightarrow> y),
      r_width = 300, r_height = 200,
      r_display = (if cls_active el then ''block'' else ''none'')\<rparr>"

definition demo_header :: header where
  "demo_header =
     \<lparr>hd_cursor = ''grab'', hd_userSelect = ''none'', hd_webkitUserSelect = ''none'',
      hd_touchAction = ''none'', hd_listeners = []\<rparr>"

definition demo_window :: element where
  "demo_window =
     \<lparr>cls_active = True, style_left = None, style_top = None, style_transform = [],
      style_margin = [], style_transition = [], style_zIndex = None,
      style_userSelect = [], style_webkitUserSelect = [], style_touchAction = [],
      el_header = Some demo_header, el_listeners = []\<rparr>"

definition demo_page :: page where
  "demo_page =
     \<lparr>elems = [''win'' \<mapsto> demo_window], render = demo_render,
      innerWidth = 1200, innerHeight = 800, doc_listeners = [], next_fn = 0,
      body_userSelect = [], body_webkitUserSelect = [], body_drawn_mode = False,
      toggle_icon = Some ''pencil'', localStorage_ok = True, stored_drawingMode = None,
      timers = [], desktopApps_present = True, app_calls = []\<rparr>"

definition pointer_at :: "num \<Rightarrow> num \<Rightarrow> pointer_event" where
  "pointer_at x y =
     \<lparr>clientX = x, clientY = y, defaultPrevented = False, propagationStopped = False\<rparr>"

subsection \<open>Sequences of \<open>bringToFront\<close> calls\<close>

text \<open>The z-index an element shows: its inline \<open>style.zIndex\<close>.\<close>

definition zIndex_of :: "wm_state \<times> page \<Rightarrow> elem_ref \<Rightarrow> num option" where
  "zIndex_of s r = (case elems (snd s) r of None \<Rightarrow> None | Some el \<Rightarrow> style_zIndex el)"

fun bringToFront_calls :: "wm_state \<times> page \<Rightarrow> elem_ref list \<Rightarrow> wm_state \<times> page" where
  "bringToFront_calls s [] = s"
| "bringToFront_calls s (r # rs) = bringToFront_calls (bringToFront s (Some r)) rs"

text \<open>The value each call of the sequence assigns to its target, in call order.\<close>

fun assigned_zIndexes :: "wm_state \<times> page \<Rightarrow> elem_ref list \<Rightarrow> num option list" where
  "assigned_zIndexes s [] = []"
| "assigned_zIndexes s (r # rs) =
     zIndex_of (bringToFront s (Some r)) r # assigned_zIndexes (bringToFront s (Some r)) rs"

text \<open>No element shows a z-index above the counter.\<close>

definition z_bounded :: "wm_state \<times> page \<Rightarrow> bool" where
  "z_bounded s = (\<forall>r z. zIndex_of s r = Some z \<longrightarrow> z \<le> currentZIndex (fst s))"

definition demo_page2 :: page where
  "demo_page2 = demo_page\<lparr>elems := [''win'' \<mapsto> demo_window, ''other'' \<mapsto> demo_window]\<rparr>"

text \<open>The number of calls that takes the counter from the constructor's 100 to \<open>2 ^ 53\<close>.\<close>

definition long_run :: nat where
  "long_run = 2 ^ 53 - 100"

text \<open>The state after that many calls on \<open>win\<close>, from the constructor's state.\<close>

definition after_long_run :: "wm_state \<times> page" where
  "after_long_run = bringToFront_calls (wm_constructor, demo_page2) (replicate long_run ''win'')"

text \<open>
  The page at the moment \<open>showWindow\<close> calls \<open>centerWindowNow\<close>: the window, set up if
  it was not registered, carries the class \<open>active\<close>. The rendered size is read from it.
\<close>

definition activated :: "wm_state \<times> page \<Rightarrow> string \<Rightarrow> page" where
  "activated s windowId =
     upd_elem
       (snd (if windows (fst s) windowId = None
             then makeWindowDraggable (setupWindow s (Some windowId)) (Some windowId)
             else s))
       windowId (\<lambda>el. el\<lparr>cls_active := True\<rparr>)"

section \<open>DrawingModeManager\<close>

text \<open>
  The manager keeps the freeze flag \<open>isDrawingMode\<close> and the four handlers it installed
  (\<open>null\<close> is \<open>None\<close>). What a handler does with an event (the allow-list) plays no part
  in registration and is not modelled: a handler is its identity. The two icons of the
  toggle button are written \<open>computer\<close> and \<open>pencil\<close>. The icon swap and the drawn
  illustration (\<open>swapToDrawnIcons\<close>, \<open>restoreOriginalIcons\<close>, \<open>showDrawnComputer\<close>)
  touch only the desktop icons and the illustration element, return normally whether or
  not these exist, and are left out.
\<close>

datatype js_error = TypeError

record dm_state =
  isDrawingMode :: bool
  toggleButton :: "elem_ref option"
  interactionBlocker :: "fn_obj option"
  keyBlocker :: "fn_obj option"
  submitBlocker :: "fn_obj option"
  contextMenuBlocker :: "fn_obj option"

definition dm_constructor :: dm_state where
  "dm_constructor =
     \<lparr>isDrawingMode = False, toggleButton = None, interactionBlocker = None,
      keyBlocker = None, submitBlocker = None, contextMenuBlocker = None\<rparr>"

definition blockInteractions :: "dm_state \<times> page \<Rightarrow> dm_state \<times> page" where
  "blockInteractions s =
     (let n = next_fn (snd s);
          ib = BlockerFn InteractionBlocker n;
          ls1 = addEventListener (doc_listeners (snd s)) (''click'', ib, True);
          ls2 = addEventListener ls1 (''dblclick'', ib, True);
          ls3 = addEventListener ls2 (''mousedown'', ib, True);
          ls4 = addEventListener ls3 (''mouseup'', ib, True);
          kb = BlockerFn KeyBlocker (n + 1);
          ls5 = addEventListener ls4 (''keydown'', kb, True);
          ls6 = addEventListener ls5 (''keypress'', kb, True);
          ls7 = addEventListener ls6 (''keyup'', kb, True);
          sb = BlockerFn SubmitBlocker (n + 2);
          ls8 = addEventListener ls7 (''submit'', sb, True);
          cb = BlockerFn ContextMenuBlocker (n + 3);
          ls9 = addEventListener ls8 (''contextmenu'', cb, True)
      in ((fst s)\<lparr>interactionBlocker := Some ib, keyBlocker := Some kb,
                   submitBlocker := Some sb, contextMenuBlocker := Some cb\<rparr>,
          (snd s)\<lparr>doc_listeners := ls9, next_fn := n + 4\<rparr>))"

definition unblockInteractions :: "dm_state \<times> page \<Rightarrow> dm_state \<times> page" where
  "unblockInteractions s =
     (let s1 = (case interactionBlocker (fst s) of
                  None \<Rightarrow> s
                | Some f \<Rightarrow>
                    let ls1 = removeEventListener (doc_listeners (snd s)) (''click'', f, True);
                        ls2 = removeEventListener ls1 (''dblclick'', f, True);
                        ls3 = removeEventListener ls2 (''mousedown'', f, True);
                        ls4 = removeEventListener ls3 (''mouseup'', f, True)
                    in ((fst s)\<lparr>interactionBlocker := None\<rparr>, (snd s)\<lparr>doc_listeners := ls4\<rparr>));
          s2 = (case keyBlocker (fst s1) of
                  None \<Rightarrow> s1
                | Some f \<Rightarrow>
                    let ls1 = removeEventListener (doc_listeners (snd s1)) (''keydown'', f, True);
                        ls2 = removeEventListener ls1 (''keypress'', f, True);
                        ls3 = removeEventListener ls2 (''keyup'', f, True)
                    in ((fst s1)\<lparr>keyBlocker := None\<rparr>, (snd s1)\<lparr>doc_listeners := ls3\<rparr>));
          s3 = (case submitBlocker (fst s2) of
                  None \<Rightarrow> s2
                | Some f \<Rightarrow>
                    ((fst s2)\<lparr>submitBlocker := None\<rparr>,
                     (snd s2)\<lparr>doc_listeners :=
                       removeEventListener (doc_listeners (snd s2)) (''submit'', f, True)\<rparr>));
          s4 = (case contextMenuBlocker (fst s3) of
                  None \<Rightarrow> s3
                | Some f \<Rightarrow>
                    ((fst s3)\<lparr>contextMenuBlocker := None\<rparr>,
                     (snd s3)\<lparr>doc_listeners :=
                       removeEventListener (doc_listeners (snd s3)) (''contextmenu'', f, True)\<rparr>))
      in s4)"

text \<open>
  \<open>updateButtonIcon\<close> dereferences \<open>this.toggleButton\<close>: a TypeError when it is
  \<open>null\<close>. A thrown error carries the state reached when it was thrown.
\<close>

definition updateButtonIcon ::
  "dm_state \<times> page \<Rightarrow> string \<Rightarrow> (js_error \<times> dm_state \<times> page) + dm_state \<times> page" where
  "updateButtonIcon s emoji =
     (case toggleButton (fst s) of
        None \<Rightarrow> Inl (TypeError, s)
      | Some b \<Rightarrow>
          (case toggle_icon (snd s) of
             None \<Rightarrow> Inr s
           | Some t \<Rightarrow> Inr (fst s, (snd s)\<lparr>toggle_icon := Some emoji\<rparr>)))"

definition enableDrawingMode ::
  "dm_state \<times> page \<Rightarrow> (js_error \<times> dm_state \<times> page) + dm_state \<times> page" where
  "enableDrawingMode s =
     (case updateButtonIcon (fst s, (snd s)\<lparr>body_drawn_mode := True\<rparr>) ''computer'' of
        Inl err \<Rightarrow> Inl err
      | Inr s1 \<Rightarrow> Inr (blockInteractions s1))"

definition disableDrawingMode ::
  "dm_state \<times> page \<Rightarrow> (js_error \<times> dm_state \<times> page) + dm_state \<times> page" where
  "disableDrawingMode s =
     (case updateButtonIcon (fst s, (snd s)\<lparr>body_drawn_mode := False\<rparr>) ''pencil'' of
        Inl err \<Rightarrow> Inl err
      | Inr s1 \<Rightarrow> Inr (unblockInteractions s1))"

definition savePreference :: "dm_state \<times> page \<Rightarrow> dm_state \<times> page" where
  "savePreference s =
     (if localStorage_ok (snd s)
      then (fst s, (snd s)\<lparr>stored_drawingMode :=
              Some (if isDrawingMode (fst s) then ''enabled'' else ''disabled'')\<rparr>)
      else s)"

definition toggle ::
  "dm_state \<times> page \<Rightarrow> (js_error \<times> dm_state \<times> page) + dm_state \<times> page" where
  "toggle s =
     (let s1 = ((fst s)\<lparr>isDrawingMode := \<not> isDrawingMode (fst s)\<rparr>, snd s)
      in case (if isDrawingMode (fst s1) then enableDrawingMode s1 else disableDrawingMode s1) of
           Inl err \<Rightarrow> Inl err
         | Inr s2 \<Rightarrow> Inr (savePreference s2))"

text \<open>\<open>loadSavedPreference\<close> runs in a \<open>try\<close> block: an error is caught and logged.\<close>

definition loadSavedPreference :: "dm_state \<times> page \<Rightarrow> dm_state \<times> page" where
  "loadSavedPreference s =
     (if localStorage_ok (snd s) \<and> stored_drawingMode (snd s) = Some ''enabled''
      then
        (case updateButtonIcon ((fst s)\<lparr>isDrawingMode := True\<rparr>,
                                (snd s)\<lparr>body_drawn_mode := True\<rparr>) ''computer'' of
           Inl err \<Rightarrow> snd err
         | Inr s1 \<Rightarrow> blockInteractions s1)
      else s)"

definition dm_setup :: "dm_state \<times> page \<Rightarrow> dm_state \<times> page" where
  "dm_setup s =
     (case elems (snd s) ''drawingModeToggle'' of
        None \<Rightarrow> ((fst s)\<lparr>toggleButton := None\<rparr>, snd s)
      | Some b \<Rightarrow>
          let s1 = loadSavedPreference ((fst s)\<lparr>toggleButton := Some ''drawingModeToggle''\<rparr>, snd s);
              n = next_fn (snd s1);
              pg2 = upd_elem (snd s1) ''drawingModeToggle''
                      (\<lambda>el. el\<lparr>el_listeners :=
                                 addEventListener (el_listeners el) (''click'', OtherFn n, False)\<rparr>)
          in (fst s1, pg2\<lparr>doc_listeners :=
                             addEventListener (doc_listeners pg2) (''keydown'', OtherFn (Suc n), False),
                           next_fn := Suc (Suc n)\<rparr>))"

fun toggles ::
  "nat \<Rightarrow> dm_state \<times> page \<Rightarrow> (js_error \<times> dm_state \<times> page) + dm_state \<times> page" where
  "toggles 0 s = Inr s"
| "toggles (Suc n) s = (case toggle s of Inl err \<Rightarrow> Inl err | Inr s1 \<Rightarrow> toggles n s1)"

subsection \<open>The interceptors among the document's listeners\<close>

fun is_blocker :: "fn_obj \<Rightarrow> bool" where
  "is_blocker (BlockerFn k n) = True"
| "is_blocker f = False"

definition interceptors :: "listener list \<Rightarrow> listener list" where
  "interceptors ls = filter (\<lambda>l. is_blocker (fst (snd l))) ls"

text \<open>The nine interceptors one call of \<open>blockInteractions\<close> creates from counter \<open>n\<close>.\<close>

definition blocker_listeners :: "nat \<Rightarrow> listener list" where
  "blocker_listeners n =
     [(''click'', BlockerFn InteractionBlocker n, True),
      (''dblclick'', BlockerFn InteractionBlocker n, True),
      (''mousedown'', BlockerFn InteractionBlocker n, True),
      (''mouseup'', BlockerFn InteractionBlocker n, True),
      (''keydown'', BlockerFn KeyBlocker (n + 1), True),
      (''keypress'', BlockerFn KeyBlocker (n + 1), True),
      (''keyup'', BlockerFn KeyBlocker (n + 1), True),
      (''submit'', BlockerFn SubmitBlocker (n + 2), True),
      (''contextmenu'', BlockerFn ContextMenuBlocker (n + 3), True)]"

text \<open>Every function object in use was allocated: its number is below the counter.\<close>

definition fresh_fns :: "page \<Rightarrow> bool" where
  "fresh_fns pg =
     (\<forall>ty k n c. (ty, BlockerFn k n, c) \<in> set (doc_listeners pg) \<longrightarrow> n < next_fn pg)"

definition no_blockers :: "dm_state \<Rightarrow> bool" where
  "no_blockers dm =
     (interactionBlocker dm = None \<and> keyBlocker dm = None \<and> submitBlocker dm = None \<and>
      contextMenuBlocker dm = None)"

definition demo_button :: element where
  "demo_button = demo_window\<lparr>el_header := None\<rparr>"

definition dm_demo_page :: page where
  "dm_demo_page =
     demo_page\<lparr>elems := [''win'' \<mapsto> demo_window, ''drawingModeToggle'' \<mapsto> demo_button]\<rparr>"

text \<open>The manager holds the four handlers created from counter \<open>n\<close>.\<close>

definition blockers_at :: "dm_state \<Rightarrow> nat \<Rightarrow> bool" where
  "blockers_at dm n =
     (interactionBlocker dm = Some (BlockerFn InteractionBlocker n) \<and>
      keyBlocker dm = Some (BlockerFn KeyBlocker (n + 1)) \<and>
      submitBlocker dm = Some (BlockerFn SubmitBlocker (n + 2)) \<and>
      contextMenuBlocker dm = Some (BlockerFn ContextMenuBlocker (n + 3)))"

text \<open>
  The state of the controller as \<open>toggle\<close> finds and leaves it: the toggle button was
  found, and the interceptors among the document's listeners are the nine of the handlers
  the manager holds when the freeze flag is on, and none when it is off.
\<close>

definition dm_inv :: "dm_state \<times> page \<Rightarrow> bool" where
  "dm_inv s =
     (toggleButton (fst s) \<noteq> None \<and> fresh_fns (snd s) \<and>
      (if isDrawingMode (fst s)
       then (\<exists>n. blockers_at (fst s) n \<and>
                  interceptors (doc_listeners (snd s)) = blocker_listeners n)
       else interceptors (doc_listeners (snd s)) = []))"

section \<open>DesktopApps: notepad and gallery\<close>

text \<open>
  The notepad canvas is a bitmap of RGBA bytes. What the platform supplies at a call is
  the environment: the encoder behind \<open>canvas.toDataURL(type)\<close>, the clock read by
  \<open>Date.now()\<close> and the text of \<open>new Date().toLocaleString()\<close>.
\<close>

record canvas =
  cv_width :: nat
  cv_height :: nat
  cv_bitmap :: "8 word list"

record drawing =
  dr_id :: int
  dr_dataURL :: string
  dr_timestamp :: string

record apps_state =
  drawings :: "drawing list"
  notepad_canvas :: "canvas option"
  notepad_ctx :: bool

record platform =
  toDataURL :: "string \<Rightarrow> canvas \<Rightarrow> string"
  date_now :: int
  date_localeString :: string

record gallery_item =
  gi_src :: string
  gi_alt :: string
  gi_caption :: string

datatype grid_child = Placeholder string | GalleryItem gallery_item

text \<open>
  The world of the applications: their own state, \<open>window.windowManager\<close> (if present)
  with the page, the children of \<open>#galleryGrid\<close> (\<open>None\<close> when the page has no such
  element) and the alerts shown.
\<close>

record apps_world =
  aw_apps :: apps_state
  aw_wm :: "wm_state option"
  aw_page :: page
  aw_grid :: "grid_child list option"
  aw_alerts :: "string list"

definition apps_constructor :: apps_state where
  "apps_constructor = \<lparr>drawings = [], notepad_canvas = None, notepad_ctx = False\<rparr>"

text \<open>Decimal text of a number, as the template literal \<open>`Drawing ${index + 1}`\<close> needs.\<close>

definition digit_char :: "nat \<Rightarrow> char" where
  "digit_char d = char_of (48 + d)"

function dec :: "nat \<Rightarrow> string" where
  "dec n = (if n < 10 then [digit_char n] else dec (n div 10) @ [digit_char (n mod 10)])"
  by pat_completeness auto
termination
  by (relation "measure id") auto

declare dec.simps [simp del]

definition clearNotepad :: "apps_world \<Rightarrow> apps_world" where
  "clearNotepad w =
     (case notepad_canvas (aw_apps w) of
        None \<Rightarrow> w
      | Some c \<Rightarrow>
          if notepad_ctx (aw_apps w)
          then w\<lparr>aw_apps := (aw_apps w)\<lparr>notepad_canvas :=
                   Some (c\<lparr>cv_bitmap := replicate (4 * cv_width c * cv_height c) 255\<rparr>)\<rparr>\<rparr>
          else w)"

definition gallery_item_of :: "nat \<Rightarrow> drawing \<Rightarrow> grid_child" where
  "gallery_item_of index d =
     GalleryItem \<lparr>gi_src = dr_dataURL d, gi_alt = ''Drawing '' @ dec (index + 1),
                  gi_caption = dr_timestamp d\<rparr>"

definition renderGallery :: "apps_world \<Rightarrow> apps_world" where
  "renderGallery w =
     (case aw_grid w of
        None \<Rightarrow> w
      | Some g \<Rightarrow>
          if length (drawings (aw_apps w)) = 0
          then w\<lparr>aw_grid := Some [Placeholder ''No drawings yet. Create one in Notepad!'']\<rparr>
          else w\<lparr>aw_grid := Some
                 (foldl (\<lambda>children (index, d). children @ [gallery_item_of index d]) []
                    (enumerate 0 (drawings (aw_apps w))))\<rparr>)"

definition openGallery :: "apps_world \<Rightarrow> apps_world" where
  "openGallery w =
     renderGallery
       (case aw_wm w of
          Some wm \<Rightarrow>
            (let s = showWindow (wm, aw_page w) ''galleryWindow''
             in w\<lparr>aw_wm := Some (fst s), aw_page := snd s\<rparr>)
        | None \<Rightarrow>
            w\<lparr>aw_page := upd_elem (aw_page w) ''galleryWindow'' (\<lambda>el. el\<lparr>cls_active := True\<rparr>)\<rparr>)"

definition submitDrawing :: "platform \<Rightarrow> apps_world \<Rightarrow> apps_world" where
  "submitDrawing env w =
     (case notepad_canvas (aw_apps w) of
        None \<Rightarrow> w\<lparr>aw_alerts := aw_alerts w @ [''No drawing to submit!'']\<rparr>
      | Some c \<Rightarrow>
          let dataURL = toDataURL env ''image/png'' c;
              d = \<lparr>dr_id = date_now env, dr_dataURL = dataURL,
                   dr_timestamp = date_localeString env\<rparr>;
              w1 = w\<lparr>aw_apps := (aw_apps w)\<lparr>drawings := drawings (aw_apps w) @ [d]\<rparr>\<rparr>;
              w2 = clearNotepad w1;
              w3 = openGallery w2
          in w3\<lparr>aw_alerts := aw_alerts w3 @ [''Drawing submitted to gallery!'']\<rparr>)"

text \<open>The gallery items among the children of the grid, in document order.\<close>

fun items_of :: "grid_child list \<Rightarrow> gallery_item list" where
  "items_of [] = []"
| "items_of (Placeholder t # cs) = items_of cs"
| "items_of (GalleryItem i # cs) = i # items_of cs"

definition shown_items :: "apps_world \<Rightarrow> gallery_item list option" where
  "shown_items w = map_option items_of (aw_grid w)"

fun submissions :: "apps_world \<Rightarrow> platform list \<Rightarrow> apps_world" where
  "submissions w [] = w"
| "submissions w (env # envs) = submissions (submitDrawing env w) envs"

subsection \<open>An example session\<close>

definition demo_canvas :: canvas where
  "demo_canvas = \<lparr>cv_width = 2, cv_height = 1, cv_bitmap = [0, 0, 0, 255, 255, 255, 255, 255]\<rparr>"

definition demo_encoder :: "string \<Rightarrow> canvas \<Rightarrow> string" where
  "demo_encoder ty c = ''data:'' @ ty @ '';base64,'' @ dec (length (cv_bitmap c))"

definition demo_platform :: "int \<Rightarrow> string \<Rightarrow> platform" where
  "demo_platform t txt = \<lparr>toDataURL = demo_encoder, date_now = t, date_localeString = txt\<rparr>"

definition demo_apps_world :: apps_world where
  "demo_apps_world =
     \<lparr>aw_apps = apps_constructor\<lparr>notepad_canvas := Some demo_canvas, notepad_ctx := True\<rparr>,
      aw_wm = Some wm_constructor, aw_page = demo_page, aw_grid = Some [], aw_alerts = []\<rparr>"

section \<open>DesktopApps: the sketch filter\<close>

text \<open>
  An \<open>ImageData\<close>: width, height and the \<open>Uint8ClampedArray\<close> of \<open>4 * width * height\<close>
  bytes, four (R, G, B, A) per pixel, rows from the top. The input of the filter is what
  \<open>getImageData\<close> reads back after the video frame was drawn on the canvas; its output is
  what \<open>putImageData\<close> puts on the canvas.
\<close>

record image_data =
  img_width :: nat
  img_height :: nat
  img_data :: "8 word list"

definition wf_image :: "image_data \<Rightarrow> bool" where
  "wf_image img = (length (img_data img) = 4 * img_width img * img_height img)"

datatype dom_error = IndexSizeError

text \<open>Reading a byte of the array as a Number.\<close>

definition byte_at :: "8 word list \<Rightarrow> nat \<Rightarrow> num" where
  "byte_at data i = real (unat (data ! i))"

text \<open>
  Storing a Number in a \<open>Uint8ClampedArray\<close>: clamped to \<open>[0, 255]\<close>, then rounded to the
  nearest integer, ties to even.
\<close>

definition toUint8Clamp :: "num \<Rightarrow> 8 word" where
  "toUint8Clamp v = word_of_int (roundTiesToEven (min (max v 0) 255))"

text \<open>The literals \<open>0.299\<close>, \<open>0.587\<close>, \<open>0.114\<close> denote the nearest binary64 values.\<close>

definition gray_at :: "8 word list \<Rightarrow> nat \<Rightarrow> num" where
  "gray_at data i =
     jadd (jadd (jmul (byte_at data i) (fl (299 / 1000)))
                (jmul (byte_at data (i + 1)) (fl (587 / 1000))))
          (jmul (byte_at data (i + 2)) (fl (114 / 1000)))"

definition magnitude_at :: "8 word list \<Rightarrow> nat \<Rightarrow> nat \<Rightarrow> nat \<Rightarrow> num" where
  "magnitude_at data width x y =
     (let tl = ((y - 1) * width + (x - 1)) * 4;
          tr = ((y - 1) * width + (x + 1)) * 4;
          bl = ((y + 1) * width + (x - 1)) * 4;
          br = ((y + 1) * width + (x + 1)) * 4;
          grayTL = gray_at data tl;
          grayTR = gray_at data tr;
          grayBL = gray_at data bl;
          grayBR = gray_at data br;
          gx = jsub (jadd grayTR grayBR) (jadd grayTL grayBL);
          gy = jsub (jadd grayBL grayBR) (jadd grayTL grayTR)
      in jsqrt (jadd (jmul gx gx) (jmul gy gy)))"

text \<open>The Number assigned to the three colour channels of pixel \<open>(x, y)\<close>.\<close>

definition sketch_value :: "8 word list \<Rightarrow> nat \<Rightarrow> nat \<Rightarrow> nat \<Rightarrow> num" where
  "sketch_value data width x y =
     (let idx = (y * width + x) * 4;
          gray = gray_at data idx;
          magnitude = magnitude_at data width x y;
          threshold = 30;
          isEdge = magnitude > threshold
      in if isEdge then max 0 (jsub 255 magnitude) else min 255 (jadd gray 30))"

text \<open>The body of the inner loop: the four stores into \<open>output.data\<close>.\<close>

definition sketch_pixel :: "8 word list \<Rightarrow> nat \<Rightarrow> 8 word list \<Rightarrow> nat \<Rightarrow> nat \<Rightarrow> 8 word list" where
  "sketch_pixel data width out y x =
     (let idx = (y * width + x) * 4;
          v = sketch_value data width x y
      in out[idx := toUint8Clamp v, idx + 1 := toUint8Clamp v, idx + 2 := toUint8Clamp v,
             idx + 3 := 255])"

definition sketch_row :: "8 word list \<Rightarrow> nat \<Rightarrow> 8 word list \<Rightarrow> nat \<Rightarrow> 8 word list" where
  "sketch_row data width out y = foldl (\<lambda>out x. sketch_pixel data width out y x) out [1..<width - 1]"

definition sketch_rows :: "8 word list \<Rightarrow> nat \<Rightarrow> nat \<Rightarrow> 8 word list \<Rightarrow> 8 word list" where
  "sketch_rows data width height out =
     foldl (\<lambda>out y. sketch_row data width out y) out [1..<height - 1]"

text \<open>
  \<open>getImageData\<close> and \<open>createImageData\<close> throw an IndexSizeError for a width or height
  of zero. \<open>createImageData\<close> returns transparent black: every byte is 0.
\<close>

definition applySketchFilter :: "image_data \<Rightarrow> dom_error + image_data" where
  "applySketchFilter img =
     (if img_width img = 0 \<or> img_height img = 0 then Inl IndexSizeError
      else
        let data = img_data img;
            width = img_width img;
            height = img_height img;
            output = replicate (4 * width * height) 0
        in Inr \<lparr>img_width = width, img_height = height,
                img_data = sketch_rows data width height output\<rparr>)"

text \<open>The four bytes of pixel \<open>(x, y)\<close> of an image.\<close>

definition pixel_at :: "image_data \<Rightarrow> nat \<Rightarrow> nat \<Rightarrow> 8 word \<times> 8 word \<times> 8 word \<times> 8 word" where
  "pixel_at img x y =
     (let idx = (y * img_width img + x) * 4
      in (img_data img ! idx, img_data img ! (idx + 1), img_data img ! (idx + 2),
          img_data img ! (idx + 3)))"

definition interior :: "image_data \<Rightarrow> nat \<Rightarrow> nat \<Rightarrow> bool" where
  "interior img x y = (1 \<le> x \<and> x < img_width img - 1 \<and> 1 \<le> y \<and> y < img_height img - 1)"

definition on_border :: "image_data \<Rightarrow> nat \<Rightarrow> nat \<Rightarrow> bool" where
  "on_border img x y = (x < img_width img \<and> y < img_height img \<and> \<not> interior img x y)"

text \<open>What ends up in channel number \<open>c\<close> of a processed pixel whose value is \<open>v\<close>.\<close>

definition chan :: "num \<Rightarrow> nat \<Rightarrow> 8 word" where
  "chan v c = (if c = 3 then 255 else toUint8Clamp v)"

text \<open>The luminance the filter computes for a colour \<open>(r, g, b)\<close>.\<close>

definition luminance :: "8 word \<Rightarrow> 8 word \<Rightarrow> 8 word \<Rightarrow> num" where
  "luminance r g b =
     jadd (jadd (jmul (real (unat r)) (fl (299 / 1000))) (jmul (real (unat g)) (fl (587 / 1000))))
          (jmul (real (unat b)) (fl (114 / 1000)))"

text \<open>Every pixel of the image has the colour \<open>(r, g, b)\<close>.\<close>

definition uniform :: "image_data \<Rightarrow> 8 word \<Rightarrow> 8 word \<Rightarrow> 8 word \<Rightarrow> bool" where
  "uniform img r g b =
     (\<forall>p < img_width img * img_height img.
        img_data img ! (p * 4) = r \<and> img_data img ! (p * 4 + 1) = g \<and>
        img_data img ! (p * 4 + 2) = b)"

subsection \<open>Example frames of 3 by 3 pixels\<close>

text \<open>Two black rows above a row of colour (52, 0, 0): a horizontal boundary.\<close>

definition edge_frame :: image_data where
  "edge_frame =
     \<lparr>img_width = 3, img_height = 3,
      img_data = [0, 0, 0, 255,  0, 0, 0, 255,  0, 0, 0, 255,
                  0, 0, 0, 255,  0, 0, 0, 255,  0, 0, 0, 255,
                  52, 0, 0, 255,  52, 0, 0, 255,  52, 0, 0, 255]\<rparr>"

text \<open>Every pixel has the colour (1, 0, 0).\<close>

definition red_frame :: image_data where
  "red_frame =
     \<lparr>img_width = 3, img_height = 3,
      img_data = [1, 0, 0, 255,  1, 0, 0, 255,  1, 0, 0, 255,
                  1, 0, 0, 255,  1, 0, 0, 255,  1, 0, 0, 255,
                  1, 0, 0, 255,  1, 0, 0, 255,  1, 0, 0, 255]\<rparr>"

text \<open>
  The image of 3 by 3 pixels that is transparent black but for its centre pixel, opaque
  with the three colour channels \<open>a\<close>.
\<close>

definition center_only :: "8 word \<Rightarrow> image_data" where
  "center_only a =
     \<lparr>img_width = 3, img_height = 3,
      img_data = [0, 0, 0, 0,  0, 0, 0, 0,  0, 0, 0, 0,
                  0, 0, 0, 0,  a, a, a, 255,  0, 0, 0, 0,
                  0, 0, 0, 0,  0, 0, 0, 0,  0, 0, 0, 0]\<rparr>"

section \<open>Facts about rounding\<close>

lemma rte_int: "roundTiesToEven (of_int n) = n"
  by (simp add: roundTiesToEven_def)

lemma rte_err: "\<bar>of_int (roundTiesToEven x) - x\<bar> \<le> 1 / 2"
  unfolding roundTiesToEven_def Let_def by (auto; linarith)

lemma ulp_pos: "0 < ulp_of x"
  by (simp add: ulp_of_def)

lemma ulp_le:
  assumes "x \<noteq> 0"
  shows "ulp_of x \<le> \<bar>x\<bar> / 2 ^ 52"
proof -
  have "2 powr (of_int \<lfloor>log 2 \<bar>x\<bar>\<rfloor>) \<le> 2 powr (log 2 \<bar>x\<bar>)"
    by (rule powr_mono) auto
  also have "\<dots> = \<bar>x\<bar>" using assms by simp
  finally have a: "2 powr (of_int \<lfloor>log 2 \<bar>x\<bar>\<rfloor>) \<le> \<bar>x\<bar>" .
  have "ulp_of x = 2 powr (of_int \<lfloor>log 2 \<bar>x\<bar>\<rfloor>) / 2 ^ 52"
    by (simp add: ulp_of_def powr_diff)
  with a show ?thesis by (simp add: divide_right_mono)
qed

lemma fl_err: "\<bar>fl x - x\<bar> \<le> \<bar>x\<bar> / 2 ^ 53"
proof (cases "x = 0")
  case True
  then show ?thesis by (simp add: fl_def)
next
  case False
  let ?u = "ulp_of x"
  have u: "0 < ?u" by (rule ulp_pos)
  have "fl x - x = (of_int (roundTiesToEven (x / ?u)) - x / ?u) * ?u"
    using False u by (simp add: fl_def algebra_simps)
  then have "\<bar>fl x - x\<bar> = \<bar>of_int (roundTiesToEven (x / ?u)) - x / ?u\<bar> * ?u"
    using u by (simp add: abs_mult)
  also have "\<dots> \<le> (1 / 2) * ?u"
    using rte_err [of "x / ?u"] u by (intro mult_right_mono) auto
  also have "\<dots> \<le> (1 / 2) * (\<bar>x\<bar> / 2 ^ 52)"
    using ulp_le [OF False] by simp
  finally show ?thesis by simp
qed

lemma fl_0: "fl 0 = 0"
  by (simp add: fl_def)

lemma fl_exact:
  assumes "x / ulp_of x = of_int m"
  shows "fl x = x"
proof (cases "x = 0")
  case True
  then show ?thesis by (simp add: fl_def)
next
  case False
  have u: "0 < ulp_of x" by (rule ulp_pos)
  from assms u have "x = of_int m * ulp_of x" by (simp add: field_simps)
  then show ?thesis using assms False by (simp add: fl_def rte_int)
qed

lemma fl_int:
  assumes "\<bar>n\<bar> < 2 ^ 53"
  shows "fl (of_int n) = of_int n"
proof (cases "n = 0")
  case True
  then show ?thesis by (simp add: fl_def)
next
  case False
  define x where "x = (of_int n :: real)"
  define k where "k = \<lfloor>log 2 \<bar>x\<bar>\<rfloor>"
  have "1 \<le> \<bar>n\<bar>" using False by simp
  then have x1: "1 \<le> \<bar>x\<bar>" unfolding x_def by (metis of_int_abs of_int_1_le_iff)
  have "\<bar>x\<bar> < 2 ^ 53" using assms unfolding x_def
    by (metis of_int_abs of_int_less_iff of_int_numeral of_int_power)
  then have "log 2 \<bar>x\<bar> < log 2 (2 ^ 53)"
    using x1 by (subst log_less_cancel_iff) auto
  moreover have "log 2 ((2::real) ^ 53) = 53" by (subst log_nat_power) simp_all
  ultimately have "log 2 \<bar>x\<bar> < 53" by linarith
  then have k52: "k \<le> 52" unfolding k_def by (simp add: floor_le_iff)
  have "ulp_of x = 2 powr (of_int (k - 52))" by (simp add: ulp_of_def k_def)
  also have "\<dots> = inverse (2 ^ nat (52 - k))"
  proof (cases "k = 52")
    case True
    then show ?thesis by simp
  next
    case False
    with k52 have "\<not> 0 \<le> k - 52" by simp
    moreover have "nat (- (k - 52)) = nat (52 - k)" by simp
    ultimately show ?thesis using powr_real_of_int [of 2 "k - 52"] by simp
  qed
  finally have u: "ulp_of x = inverse (2 ^ nat (52 - k))" .
  have "x / ulp_of x = x * 2 ^ nat (52 - k)"
    by (simp add: u field_simps)
  then have "x / ulp_of x = of_int (n * 2 ^ nat (52 - k))"
    by (simp add: x_def)
  then show ?thesis unfolding x_def [symmetric] by (rule fl_exact)
qed

lemma fl_numeral: "\<bar>numeral w :: int\<bar> < 2 ^ 53 \<Longrightarrow> fl (numeral w) = numeral w"
  using fl_int [of "numeral w"] by simp

lemma fl_neg_numeral: "\<bar>numeral w :: int\<bar> < 2 ^ 53 \<Longrightarrow> fl (- numeral w) = - numeral w"
  using fl_int [of "- numeral w"] by simp

lemma fl_1: "fl 1 = 1"
  using fl_int [of 1] by simp

lemma fl_half: "fl (x / 2) = fl x / 2"
proof (cases "x = 0")
  case True
  then show ?thesis by (simp add: fl_def)
next
  case False
  have "log 2 (\<bar>x\<bar> / 2) = log 2 \<bar>x\<bar> - 1" using False by (simp add: log_divide)
  then have u: "ulp_of (x / 2) = ulp_of x / 2"
    by (simp add: ulp_of_def powr_diff)
  have "x / 2 / ulp_of (x / 2) = x / ulp_of x" using ulp_pos [of x] by (simp add: u)
  then show ?thesis using False by (simp add: fl_def u)
qed

lemmas fl_simps = fl_0 fl_1 fl_numeral fl_neg_numeral fl_half

section \<open>The drag controller outside a session\<close>

text \<open>
  C10. When no drag session is active (\<open>isDragging\<close> is false), the pointer-move handler
  \<open>handleDrag\<close> and the pointer-up/cancel handler \<open>stopDrag\<close> return at their first
  statement: the manager, the page (every window position, every cursor style, the
  document's listeners, the timers) and the event are all unchanged.
\<close>

theorem idle_handlers_noop:
  "\<not> isDragging (fst s) \<Longrightarrow> handleDrag s e = (s, e) \<and> stopDrag s e = (s, e)"
  by (simp add: handleDrag_def stopDrag_def)

theorem idle_handlers_noop_witness:
  "\<not> isDragging (fst (wm_constructor, demo_page)) \<and>
   handleDrag (wm_constructor, demo_page) (pointer_at 250 170)
     = ((wm_constructor, demo_page), pointer_at 250 170) \<and>
   stopDrag (wm_constructor, demo_page) (pointer_at 250 170)
     = ((wm_constructor, demo_page), pointer_at 250 170)"
  using idle_handlers_noop [of "(wm_constructor, demo_page)" "pointer_at 250 170"]
  by (simp add: wm_constructor_def)

section \<open>Drag sessions\<close>

lemma elems_upd_elem:
  "elems (upd_elem pg r f) =
     (case elems pg r of None \<Rightarrow> elems pg | Some el \<Rightarrow> (elems pg)(r \<mapsto> f el))"
  by (simp add: upd_elem_def split: option.splits)

lemma upd_elem_fields [simp]:
  "render (upd_elem pg r f) = render pg"
  "innerWidth (upd_elem pg r f) = innerWidth pg"
  "innerHeight (upd_elem pg r f) = innerHeight pg"
  "doc_listeners (upd_elem pg r f) = doc_listeners pg"
  "next_fn (upd_elem pg r f) = next_fn pg"
  "body_drawn_mode (upd_elem pg r f) = body_drawn_mode pg"
  "toggle_icon (upd_elem pg r f) = toggle_icon pg"
  "localStorage_ok (upd_elem pg r f) = localStorage_ok pg"
  "stored_drawingMode (upd_elem pg r f) = stored_drawingMode pg"
  "timers (upd_elem pg r f) = timers pg"
  "desktopApps_present (upd_elem pg r f) = desktopApps_present pg"
  "app_calls (upd_elem pg r f) = app_calls pg"
  by (simp_all add: upd_elem_def split: option.splits)





lemma bringToFront_elems:
  "elems (snd (bringToFront s (Some r))) r' =
     (if r' = r
      then map_option (\<lambda>el. el\<lparr>style_zIndex := Some (jadd (currentZIndex (fst s)) 1)\<rparr>) (elems (snd s) r)
      else elems (snd s) r')"
  by (simp add: bringToFront_def Let_def elems_upd_elem split: option.splits)

lemma bringToFront_wm:
  "isDragging (fst (bringToFront s w)) = isDragging (fst s)"
  "activeWindow (fst (bringToFront s w)) = activeWindow (fst s)"
  "dragStartX (fst (bringToFront s w)) = dragStartX (fst s)"
  "dragStartY (fst (bringToFront s w)) = dragStartY (fst s)"
  "windowStartX (fst (bringToFront s w)) = windowStartX (fst s)"
  "windowStartY (fst (bringToFront s w)) = windowStartY (fst s)"
  "currentZIndex (fst (bringToFront s (Some r))) = jadd (currentZIndex (fst s)) 1"
  by (simp_all add: bringToFront_def Let_def split: option.splits)














text \<open>Unfolding the model on the example page.\<close>

lemmas wm_eval =
  drag_session_def drag_moves_def startDrag_def handleDrag_def stopDrag_def bringToFront_def
  upd_elem_def set_header_cursor_def position_def Let_def wm_constructor_def demo_page_def
  demo_window_def demo_header_def demo_render_def pointer_at_def preventDefault_def
  stopPropagation_def addEventListener_def removeEventListener_def jadd_def jsub_def jdiv_def
  fl_simps

lemma demo_drag_session:
  "position (drag_session (wm_constructor, demo_page) ''win'' (pointer_at 200 120)
              [pointer_at 250 90] (pointer_at 250 90)) ''win'' = Some (Some 150, Some 70)"
  by (simp add: wm_eval)



section \<open>Z-order\<close>

subsection \<open>Incrementing the counter\<close>

text \<open>
  Adding one is exact while the result is at most \<open>2 ^ 53\<close>; at \<open>2 ^ 53\<close> the sum
  \<open>2 ^ 53 + 1\<close> lies halfway between two representable numbers and rounds back to
  \<open>2 ^ 53\<close>.
\<close>

lemma fl_2_53: "fl (2 ^ 53) = 2 ^ 53"
proof -
  have "fl (2 ^ 53 / 2) = fl (2 ^ 53) / 2" by (rule fl_half)
  moreover have "(2::real) ^ 53 / 2 = of_int (2 ^ 52)" by simp
  moreover have "fl (of_int (2 ^ 52)) = of_int (2 ^ 52)" by (rule fl_int) simp
  ultimately show ?thesis by simp
qed

lemma fl_counter:
  assumes "0 \<le> n" "n \<le> 2 ^ 53"
  shows "fl (of_int n) = of_int n"
proof (cases "n = 2 ^ 53")
  case True
  then show ?thesis using fl_2_53 by simp
next
  case False
  with assms have "\<bar>n\<bar> < 2 ^ 53" by simp
  then show ?thesis by (rule fl_int)
qed

lemma jadd_counter:
  assumes "0 \<le> k" "k + 1 \<le> 2 ^ 53"
  shows "jadd (of_int k) 1 = of_int (k + 1)"
proof -
  have "jadd (of_int k) 1 = fl (of_int (k + 1))" by (simp add: jadd_def)
  also have "\<dots> = of_int (k + 1)" using assms by (intro fl_counter) auto
  finally show ?thesis .
qed

lemma jadd_saturated: "jadd (2 ^ 53) 1 = 2 ^ 53"
proof -
  define x where "x = (2::real) ^ 53 + 1"
  have x: "0 < x" "\<bar>x\<bar> = x" by (simp_all add: x_def)
  have p: "(2::real) powr (of_int 53) = 2 ^ 53" "(2::real) powr (of_int (53 + 1)) = 2 ^ 54"
    by (simp_all add: powr_realpow [symmetric])
  have "2 powr (of_int 53) \<le> x \<and> x < 2 powr (of_int (53 + 1))"
    unfolding p by (simp add: x_def)
  then have "\<lfloor>log 2 x\<rfloor> = 53"
    using floor_log_eq_powr_iff [of x 2 53] x by simp
  then have u: "ulp_of x = 2" by (simp add: ulp_of_def x)
  have d: "x / 2 = 9007199254740993 / 2" by (simp add: x_def)
  have r: "roundTiesToEven (x / 2) = 2 ^ 52"
    unfolding d by (simp add: roundTiesToEven_def Let_def)
  have "fl x = 2 ^ 53"
    using x by (simp add: fl_def u r)
  then show ?thesis by (simp add: jadd_def x_def)
qed

subsection \<open>Sequences of calls\<close>

lemma bringToFront_zIndex_of:
  "zIndex_of (bringToFront s (Some r)) r' =
     (if r' = r \<and> elems (snd s) r \<noteq> None then Some (jadd (currentZIndex (fst s)) 1)
      else zIndex_of s r')"
  by (auto simp: zIndex_of_def bringToFront_elems split: option.splits)

lemma bringToFront_dom: "dom (elems (snd (bringToFront s w))) = dom (elems (snd s))"
proof (cases w)
  case None
  then show ?thesis by (simp add: bringToFront_def)
next
  case (Some r)
  have "elems (snd (bringToFront s (Some r))) x = None \<longleftrightarrow> elems (snd s) x = None" for x
    by (simp add: bringToFront_elems)
  then show ?thesis unfolding Some dom_def by simp
qed

lemma bringToFront_calls_snoc:
  "bringToFront_calls s (rs @ [r]) = bringToFront (bringToFront_calls s rs) (Some r)"
  by (induction rs arbitrary: s) simp_all

lemma bringToFront_calls_append:
  "bringToFront_calls s (rs @ rs') = bringToFront_calls (bringToFront_calls s rs) rs'"
  by (induction rs arbitrary: s) simp_all

lemma bringToFront_calls_dom: "dom (elems (snd (bringToFront_calls s rs))) = dom (elems (snd s))"
  by (induction rs arbitrary: s) (simp_all add: bringToFront_dom)

lemma bringToFront_counter:
  assumes "currentZIndex (fst s) = of_int k" "0 \<le> k" "k + 1 \<le> 2 ^ 53"
  shows "currentZIndex (fst (bringToFront s (Some r))) = of_int (k + 1)"
  unfolding bringToFront_wm assms(1) using assms(2,3) by (rule jadd_counter)

lemma bringToFront_calls_counter:
  assumes "currentZIndex (fst s) = of_int k" "0 \<le> k" "k + int (length rs) \<le> 2 ^ 53"
  shows "currentZIndex (fst (bringToFront_calls s rs)) = of_int (k + int (length rs))"
  using assms
proof (induction rs arbitrary: s k)
  case Nil
  then show ?case by simp
next
  case (Cons r rs)
  have b: "0 \<le> k + 1" "k + 1 \<le> 2 ^ 53" "k + 1 + int (length rs) \<le> 2 ^ 53"
    using Cons.prems(2,3) by simp_all
  have "currentZIndex (fst (bringToFront s (Some r))) = of_int (k + 1)"
    using Cons.prems(1,2) b(2) by (rule bringToFront_counter)
  from Cons.IH [OF this b(1,3)] show ?case by (simp add: add.assoc)
qed

lemma assigned_zIndexes_eq:
  assumes "set rs \<subseteq> dom (elems (snd s))"
    and "currentZIndex (fst s) = of_int k" "0 \<le> k" "k + int (length rs) \<le> 2 ^ 53"
  shows "assigned_zIndexes s rs = map (\<lambda>i. Some (of_int (k + 1 + int i))) [0..<length rs]"
  using assms
proof (induction rs arbitrary: s k)
  case Nil
  then show ?case by simp
next
  case (Cons r rs)
  have b: "0 \<le> k + 1" "k + 1 \<le> 2 ^ 53" "k + 1 + int (length rs) \<le> 2 ^ 53"
    using Cons.prems(3,4) by simp_all
  have c: "currentZIndex (fst (bringToFront s (Some r))) = of_int (k + 1)"
    using Cons.prems(2,3) b(2) by (rule bringToFront_counter)
  have d: "set rs \<subseteq> dom (elems (snd (bringToFront s (Some r))))"
    using Cons.prems(1) by (simp add: bringToFront_dom)
  have r: "elems (snd s) r \<noteq> None"
    using Cons.prems(1) by auto
  have h: "zIndex_of (bringToFront s (Some r)) r = Some (of_int (k + 1))"
    using r c by (simp add: bringToFront_zIndex_of bringToFront_wm)
  have t: "assigned_zIndexes (bringToFront s (Some r)) rs
             = map (\<lambda>i. Some (of_int (k + 1 + 1 + int i))) [0..<length rs]"
    by (rule Cons.IH [OF d c b(1,3)])
  have u: "[0..<length (r # rs)] = 0 # map Suc [0..<length rs]"
    by (simp add: upt_conv_Cons map_Suc_upt del: upt_Suc)
  have m: "map (\<lambda>i. Some (of_int (k + 1 + int i) :: num)) (0 # map Suc [0..<length rs])
             = Some (of_int (k + 1)) # map (\<lambda>i. Some (of_int (k + 1 + 1 + int i))) [0..<length rs]"
    by (simp add: comp_def algebra_simps)
  show ?case
    unfolding assigned_zIndexes.simps h t u m ..
qed

lemma called_below_counter:
  assumes "set rs \<subseteq> dom (elems (snd s))" "r \<in> set rs"
    and "currentZIndex (fst s) = of_int k" "0 \<le> k" "k + int (length rs) \<le> 2 ^ 53"
  shows "\<exists>z. zIndex_of (bringToFront_calls s rs) r = Some z \<and>
             z \<le> currentZIndex (fst (bringToFront_calls s rs))"
  using assms
proof (induction rs rule: rev_induct)
  case Nil
  then show ?case by simp
next
  case (snoc x xs)
  let ?p = "bringToFront_calls s xs"
  have b: "k + int (length xs) \<le> 2 ^ 53" "0 \<le> k + int (length xs)"
    "k + int (length xs) + 1 \<le> 2 ^ 53"
    using snoc.prems(4,5) by simp_all
  have c: "currentZIndex (fst ?p) = of_int (k + int (length xs))"
    using snoc.prems(3,4) b(1) by (rule bringToFront_calls_counter)
  have c': "currentZIndex (fst (bringToFront ?p (Some x))) = of_int (k + int (length xs) + 1)"
    using c b(2,3) by (rule bringToFront_counter)
  have x: "elems (snd ?p) x \<noteq> None"
    using snoc.prems(1) bringToFront_calls_dom [of s xs] by auto
  show ?case
  proof (cases "r = x")
    case True
    then show ?thesis using x
      by (simp add: bringToFront_calls_snoc bringToFront_zIndex_of bringToFront_wm)
  next
    case False
    then have "r \<in> set xs" using snoc.prems(2) by simp
    with snoc.IH snoc.prems(1,3,4) b(1) obtain z where
      z: "zIndex_of ?p r = Some z" "z \<le> currentZIndex (fst ?p)" by auto
    from z(2) have "z \<le> of_int (k + int (length xs) + 1)" unfolding c by simp
    then show ?thesis using False z(1)
      unfolding bringToFront_calls_snoc c' by (simp add: bringToFront_zIndex_of)
  qed
qed

lemma bringToFront_z_bounded:
  assumes "z_bounded s" "currentZIndex (fst s) = of_int k" "0 \<le> k" "k + 1 \<le> 2 ^ 53"
  shows "z_bounded (bringToFront s (Some r))"
  unfolding z_bounded_def
proof (intro allI impI)
  fix r' z
  have c: "currentZIndex (fst (bringToFront s (Some r))) = of_int (k + 1)"
    using assms(2-4) by (rule bringToFront_counter)
  assume "zIndex_of (bringToFront s (Some r)) r' = Some z"
  then have "z = jadd (currentZIndex (fst s)) 1 \<or> zIndex_of s r' = Some z"
    by (auto simp: bringToFront_zIndex_of split: if_splits)
  moreover have "jadd (currentZIndex (fst s)) 1 = of_int (k + 1)"
    using c by (simp add: bringToFront_wm)
  moreover have "zIndex_of s r' = Some z \<Longrightarrow> z \<le> of_int k"
    using assms(1,2) by (simp add: z_bounded_def)
  ultimately show "z \<le> currentZIndex (fst (bringToFront s (Some r)))"
    unfolding c by auto
qed

lemma bringToFront_calls_z_bounded:
  assumes "z_bounded s" "currentZIndex (fst s) = of_int k" "0 \<le> k"
    "k + int (length rs) \<le> 2 ^ 53"
  shows "z_bounded (bringToFront_calls s rs)"
  using assms
proof (induction rs arbitrary: s k)
  case Nil
  then show ?case by simp
next
  case (Cons r rs)
  have b: "0 \<le> k + 1" "k + 1 \<le> 2 ^ 53" "k + 1 + int (length rs) \<le> 2 ^ 53"
    using Cons.prems(3,4) by simp_all
  have c: "currentZIndex (fst (bringToFront s (Some r))) = of_int (k + 1)"
    using Cons.prems(2,3) b(2) by (rule bringToFront_counter)
  have z: "z_bounded (bringToFront s (Some r))"
    using Cons.prems(1,2,3) b(2) by (rule bringToFront_z_bounded)
  show ?case
    unfolding bringToFront_calls.simps by (rule Cons.IH [OF z c b(1,3)])
qed

lemma last_call_highest:
  assumes "elems (snd (bringToFront_calls s rs)) r \<noteq> None"
  shows "zIndex_of (bringToFront_calls s (rs @ [r])) r
           = Some (currentZIndex (fst (bringToFront_calls s (rs @ [r]))))"
  using assms by (simp add: bringToFront_calls_snoc bringToFront_zIndex_of bringToFront_wm)

lemma bringToFront_windows:
  "windows (fst (bringToFront s (Some r))) r =
     map_option (\<lambda>wi. wi\<lparr>wi_zIndex := jadd (currentZIndex (fst s)) 1\<rparr>) (windows (fst s) r)"
  by (simp add: bringToFront_def Let_def split: option.splits)

lemma others_below_last:
  assumes "set (rs @ [r]) \<subseteq> dom (elems (snd s))" "r' \<noteq> r" "r' \<in> set rs \<or> z_bounded s"
    "zIndex_of (bringToFront_calls s (rs @ [r])) r' = Some z"
    and "currentZIndex (fst s) = of_int k" "0 \<le> k" "k + int (length (rs @ [r])) \<le> 2 ^ 53"
  shows "z < currentZIndex (fst (bringToFront_calls s (rs @ [r])))"
proof -
  let ?p = "bringToFront_calls s rs"
  have b: "k + int (length rs) \<le> 2 ^ 53" "0 \<le> k + int (length rs)"
    "k + int (length rs) + 1 \<le> 2 ^ 53"
    using assms(6,7) by simp_all
  have c: "currentZIndex (fst ?p) = of_int (k + int (length rs))"
    using assms(5,6) b(1) by (rule bringToFront_calls_counter)
  have c': "currentZIndex (fst (bringToFront ?p (Some r))) = of_int (k + int (length rs) + 1)"
    using c b(2,3) by (rule bringToFront_counter)
  from assms(2,4) have z: "zIndex_of ?p r' = Some z"
    by (simp add: bringToFront_calls_snoc bringToFront_zIndex_of)
  have "z \<le> currentZIndex (fst ?p)"
  proof (cases "r' \<in> set rs")
    case True
    have "set rs \<subseteq> dom (elems (snd s))" using assms(1) by simp
    from called_below_counter [OF this True assms(5,6) b(1)] z show ?thesis by auto
  next
    case False
    with assms(3) have "z_bounded s" by simp
    then have "z_bounded ?p" using assms(5,6) b(1) by (rule bringToFront_calls_z_bounded)
    with z show ?thesis by (simp add: z_bounded_def)
  qed
  then have "z < of_int (k + int (length rs) + 1)" unfolding c by simp
  then show ?thesis unfolding bringToFront_calls_snoc c' .
qed

text \<open>
  C2 (as amended). Let the counter hold the integer \<open>k \<ge> 0\<close> and let \<open>rs\<close> be a sequence
  of \<open>bringToFront\<close> calls on windows of the page that keeps the counter at or below
  \<open>2 ^ 53\<close> (\<open>k + length rs \<le> 2 ^ 53\<close>). Each call increments the shared counter by one (it
  is never decremented) and assigns the new value to its target, so the assigned values are
  \<open>k + 1, k + 2, \<dots>\<close> in call order, strictly increasing. After the sequence the window
  of the last call shows the counter's value, its registry entry (if it has one) stores it,
  and every other window of the sequence (and every other element at all, if none was above
  the counter at the start) shows a strictly smaller z-index.
\<close>

theorem bringToFront_call_order:
  assumes "set rs \<subseteq> dom (elems (snd s))"
    and "currentZIndex (fst s) = of_int k" "0 \<le> k" "k + int (length rs) \<le> 2 ^ 53"
  shows "currentZIndex (fst (bringToFront_calls s rs)) = of_int (k + int (length rs)) \<and>
         assigned_zIndexes s rs = map (\<lambda>i. Some (of_int (k + 1 + int i))) [0..<length rs] \<and>
         (\<forall>i j. i < j \<and> j < length rs \<longrightarrow>
            (\<exists>a b. assigned_zIndexes s rs ! i = Some a \<and> assigned_zIndexes s rs ! j = Some b
                     \<and> a < b)) \<and>
         (rs \<noteq> [] \<longrightarrow>
            zIndex_of (bringToFront_calls s rs) (last rs)
              = Some (currentZIndex (fst (bringToFront_calls s rs))) \<and>
            (\<forall>wi. windows (fst (bringToFront_calls s rs)) (last rs) = Some wi \<longrightarrow>
               wi_zIndex wi = currentZIndex (fst (bringToFront_calls s rs))) \<and>
            (\<forall>r z. r \<noteq> last rs \<and> (r \<in> set rs \<or> z_bounded s) \<and>
                    zIndex_of (bringToFront_calls s rs) r = Some z \<longrightarrow>
               z < currentZIndex (fst (bringToFront_calls s rs))))"
proof (intro conjI impI allI)
  show "currentZIndex (fst (bringToFront_calls s rs)) = of_int (k + int (length rs))"
    using assms(2-4) by (rule bringToFront_calls_counter)
  show eq: "assigned_zIndexes s rs
      = map (\<lambda>i. Some (of_int (k + 1 + int i))) [0..<length rs]"
    using assms by (rule assigned_zIndexes_eq)
  show "\<exists>a b. assigned_zIndexes s rs ! i = Some a \<and> assigned_zIndexes s rs ! j = Some b \<and> a < b"
    if "i < j \<and> j < length rs" for i j
    using that unfolding eq by simp
next
  assume ne: "rs \<noteq> []"
  then obtain xs x where rs: "rs = xs @ [x]" by (meson rev_exhaust)
  have x: "elems (snd (bringToFront_calls s xs)) x \<noteq> None"
    using assms(1) bringToFront_calls_dom [of s xs] unfolding rs by auto
  show "zIndex_of (bringToFront_calls s rs) (last rs)
          = Some (currentZIndex (fst (bringToFront_calls s rs)))"
    unfolding rs using last_call_highest [OF x] by simp
  show "wi_zIndex wi = currentZIndex (fst (bringToFront_calls s rs))"
    if "windows (fst (bringToFront_calls s rs)) (last rs) = Some wi" for wi
    using that unfolding rs
    by (auto simp: bringToFront_calls_snoc bringToFront_windows bringToFront_wm)
  show "z < currentZIndex (fst (bringToFront_calls s rs))"
    if "r \<noteq> last rs \<and> (r \<in> set rs \<or> z_bounded s) \<and>
        zIndex_of (bringToFront_calls s rs) r = Some z" for r z
  proof -
    from that have a: "r \<noteq> x" "r \<in> set xs \<or> z_bounded s"
      "zIndex_of (bringToFront_calls s (xs @ [x])) r = Some z"
      unfolding rs by auto
    have d: "set (xs @ [x]) \<subseteq> dom (elems (snd s))"
      using assms(1) unfolding rs .
    have l: "k + int (length (xs @ [x])) \<le> 2 ^ 53"
      using assms(4) unfolding rs .
    show ?thesis unfolding rs
      by (rule others_below_last [OF d a assms(2,3) l])
  qed
qed

lemmas z_eval =
  bringToFront_def upd_elem_def zIndex_of_def Let_def wm_constructor_def demo_page2_def
  demo_page_def demo_window_def demo_header_def jadd_def fl_simps

text \<open>
  Three calls on a page of two windows, from the constructor's counter 100: the values
  101, 102, 103 are assigned; \<open>win\<close>, called last, ends at 103 above \<open>other\<close> at 102.
\<close>

theorem bringToFront_call_order_witness:
  "set [''win'', ''other'', ''win''] \<subseteq> dom (elems (snd (wm_constructor, demo_page2))) \<and>
   currentZIndex (fst (wm_constructor, demo_page2)) = of_int 100 \<and>
   (100::int) + int (length [''win'', ''other'', ''win'']) \<le> 2 ^ 53 \<and>
   currentZIndex (fst (bringToFront_calls (wm_constructor, demo_page2)
                         [''win'', ''other'', ''win''])) = 103 \<and>
   assigned_zIndexes (wm_constructor, demo_page2) [''win'', ''other'', ''win'']
     = [Some 101, Some 102, Some 103] \<and>
   zIndex_of (bringToFront_calls (wm_constructor, demo_page2) [''win'', ''other'', ''win''])
     ''win'' = Some 103 \<and>
   zIndex_of (bringToFront_calls (wm_constructor, demo_page2) [''win'', ''other'', ''win''])
     ''other'' = Some 102"
proof -
  let ?s = "(wm_constructor, demo_page2)"
  let ?rs = "[''win'', ''other'', ''win'']"
  have d: "set ?rs \<subseteq> dom (elems (snd ?s))"
    by (simp add: demo_page2_def demo_page_def)
  have c: "currentZIndex (fst ?s) = of_int 100"
    by (simp add: wm_constructor_def)
  have k: "(0::int) \<le> 100" "(100::int) + int (length ?rs) \<le> 2 ^ 53"
    by simp_all
  have u: "[0..<length ?rs] = [0, 1, 2]"
    by (simp add: upt_rec)
  from bringToFront_call_order [OF d c k] have
    "currentZIndex (fst (bringToFront_calls ?s ?rs)) = 103"
    "assigned_zIndexes ?s ?rs = [Some 101, Some 102, Some 103]"
    "zIndex_of (bringToFront_calls ?s ?rs) ''win'' = Some 103"
    unfolding u by simp_all
  moreover have "zIndex_of (bringToFront_calls ?s ?rs) ''other'' = Some 102"
    by (simp add: z_eval)
  ultimately show ?thesis using d c k by simp
qed

text \<open>
  From the constructor's counter 100, \<open>2 ^ 53 - 100\<close> calls take the counter to \<open>2 ^ 53\<close>.
  There the increment is lost: the next two calls, on \<open>win\<close> and then on \<open>other\<close>, both
  assign \<open>2 ^ 53\<close>, so the assigned values are not strictly increasing and the window of
  the last call is not above the other one.
\<close>

lemma long_run_counter: "currentZIndex (fst after_long_run) = 2 ^ 53"
proof -
  have c: "currentZIndex (fst (wm_constructor, demo_page2)) = of_int 100"
    by (simp add: wm_constructor_def)
  have n: "int long_run = 2 ^ 53 - 100"
    by (simp add: long_run_def)
  have l: "100 + int (length (replicate long_run ''win'')) \<le> 2 ^ 53"
    unfolding length_replicate n by simp
  have "currentZIndex (fst after_long_run)
          = of_int (100 + int (length (replicate long_run ''win'')))"
    unfolding after_long_run_def using c _ l by (rule bringToFront_calls_counter) simp
  then show ?thesis unfolding length_replicate n by simp
qed

lemma long_run_dom: "elems (snd after_long_run) ''win'' \<noteq> None"
  "elems (snd after_long_run) ''other'' \<noteq> None"
proof -
  have "dom (elems (snd after_long_run)) = dom (elems demo_page2)"
    unfolding after_long_run_def bringToFront_calls_dom by simp
  then have "dom (elems (snd after_long_run)) = {''win'', ''other''}"
    by (auto simp: demo_page2_def demo_page_def)
  then show "elems (snd after_long_run) ''win'' \<noteq> None"
    "elems (snd after_long_run) ''other'' \<noteq> None"
    by blast+
qed

theorem bringToFront_saturation_counterexample:
  "currentZIndex (fst after_long_run) = 2 ^ 53 \<and>
   assigned_zIndexes after_long_run [''win'', ''other''] = [Some (2 ^ 53), Some (2 ^ 53)] \<and>
   zIndex_of (bringToFront_calls after_long_run [''win'', ''other'']) ''win'' = Some (2 ^ 53) \<and>
   zIndex_of (bringToFront_calls after_long_run [''win'', ''other'']) ''other'' = Some (2 ^ 53)"
proof -
  let ?a = "bringToFront after_long_run (Some ''win'')"
  have c1: "currentZIndex (fst ?a) = 2 ^ 53"
    unfolding bringToFront_wm long_run_counter by (rule jadd_saturated)
  have "zIndex_of ?a ''win'' = Some (jadd (currentZIndex (fst after_long_run)) 1)"
    using long_run_dom(1) by (simp add: bringToFront_zIndex_of)
  then have z1: "zIndex_of ?a ''win'' = Some (2 ^ 53)"
    unfolding long_run_counter jadd_saturated .
  have d2: "elems (snd ?a) ''other'' \<noteq> None"
    using long_run_dom(2) by (simp add: bringToFront_elems)
  have "zIndex_of (bringToFront ?a (Some ''other'')) ''other''
          = Some (jadd (currentZIndex (fst ?a)) 1)"
    using d2 by (simp add: bringToFront_zIndex_of)
  then have z2: "zIndex_of (bringToFront ?a (Some ''other'')) ''other'' = Some (2 ^ 53)"
    unfolding c1 jadd_saturated .
  have z3: "zIndex_of (bringToFront ?a (Some ''other'')) ''win'' = Some (2 ^ 53)"
    using z1 by (simp add: bringToFront_zIndex_of)
  show ?thesis
    using long_run_counter z1 z2 z3 by simp
qed

section \<open>Showing a window\<close>

lemma fl_neg_iff: "fl x < 0 \<longleftrightarrow> x < 0"
proof -
  have e: "\<bar>fl x - x\<bar> \<le> \<bar>x\<bar> / 2 ^ 53" by (rule fl_err)
  have "\<bar>x\<bar> / 2 ^ 53 \<le> \<bar>x\<bar> / 2" by (intro divide_left_mono) auto
  with e have h: "\<bar>fl x - x\<bar> \<le> \<bar>x\<bar> / 2" by linarith
  show ?thesis
  proof (cases "x = 0")
    case True then show ?thesis by (simp add: fl_0)
  next
    case False
    with h show ?thesis by (auto simp: abs_if split: if_splits)
  qed
qed

lemma jsub_neg_iff: "jsub a b < 0 \<longleftrightarrow> a < b"
  by (simp add: jsub_def fl_neg_iff)

lemma jdiv2_neg_iff: "jdiv a 2 < 0 \<longleftrightarrow> a < 0"
  by (simp add: jdiv_def fl_neg_iff)

lemma centerWindowNow_const [simp]:
  "render (centerWindowNow pg w) = render pg"
  "innerWidth (centerWindowNow pg w) = innerWidth pg"
  "innerHeight (centerWindowNow pg w) = innerHeight pg"
  "desktopApps_present (centerWindowNow pg w) = desktopApps_present pg"
  "app_calls (centerWindowNow pg w) = app_calls pg"
  by (simp_all add: centerWindowNow_def Let_def split: option.splits)

lemma centerWindowNow_elems:
  "elems pg r = Some el \<Longrightarrow>
   elems (centerWindowNow pg (Some r)) r =
     Some (el\<lparr>style_left := Some (jdiv (jsub (innerWidth pg) (r_width (render pg r el))) 2),
              style_top := Some (jdiv (jsub (innerHeight pg) (r_height (render pg r el))) 2),
              style_transform := ''none'', style_margin := ''0''\<rparr>)"
  by (simp add: centerWindowNow_def Let_def elems_upd_elem)

lemma setupWindow_const [simp]:
  "render (snd (setupWindow s w)) = render (snd s)"
  "innerWidth (snd (setupWindow s w)) = innerWidth (snd s)"
  "innerHeight (snd (setupWindow s w)) = innerHeight (snd s)"
  "currentZIndex (fst (setupWindow s w)) = currentZIndex (fst s)"
  by (simp_all add: setupWindow_def Let_def split: option.splits)

lemma makeWindowDraggable_const [simp]:
  "render (snd (makeWindowDraggable s w)) = render (snd s)"
  "innerWidth (snd (makeWindowDraggable s w)) = innerWidth (snd s)"
  "innerHeight (snd (makeWindowDraggable s w)) = innerHeight (snd s)"
  "currentZIndex (fst (makeWindowDraggable s w)) = currentZIndex (fst s)"
  by (simp_all add: makeWindowDraggable_def Let_def split: option.splits)

lemma centerWindowNow_dom: "elems (centerWindowNow pg w) r = None \<longleftrightarrow> elems pg r = None"
  by (auto simp: centerWindowNow_def Let_def elems_upd_elem split: option.splits if_splits)

lemma setupWindow_dom: "elems (snd (setupWindow s w)) r = None \<longleftrightarrow> elems (snd s) r = None"
  by (auto simp: setupWindow_def Let_def centerWindowNow_dom split: option.splits)

lemma makeWindowDraggable_dom:
  "elems (snd (makeWindowDraggable s w)) r = None \<longleftrightarrow> elems (snd s) r = None"
  by (auto simp: makeWindowDraggable_def Let_def split: option.splits)

lemma activated_const [simp]:
  "render (activated s w) = render (snd s)"
  "innerWidth (activated s w) = innerWidth (snd s)"
  "innerHeight (activated s w) = innerHeight (snd s)"
  by (simp_all add: activated_def)

lemma activated_elems:
  assumes "elems (snd s) w = Some el0"
  shows "\<exists>el1. elems (activated s w) w = Some el1 \<and> cls_active el1"
proof -
  let ?s1 = "if windows (fst s) w = None
             then makeWindowDraggable (setupWindow s (Some w)) (Some w) else s"
  have "elems (snd (makeWindowDraggable (setupWindow s (Some w)) (Some w))) w \<noteq> None"
    unfolding makeWindowDraggable_dom setupWindow_dom using assms by simp
  then have "elems (snd ?s1) w \<noteq> None"
    using assms by (cases "windows (fst s) w = None") simp_all
  then obtain e where "elems (snd ?s1) w = Some e" by auto
  then show ?thesis unfolding activated_def by (simp add: elems_upd_elem)
qed

lemma showWindow_unfold:
  assumes "elems (snd s) w = Some el0"
  shows "showWindow s w =
     (let s1 = (if windows (fst s) w = None
                then makeWindowDraggable (setupWindow s (Some w)) (Some w) else s);
          s4 = bringToFront (fst s1, centerWindowNow (activated s w) (Some w)) (Some w)
      in (fst s4, (snd s4)\<lparr>app_calls := app_calls (snd s4) @
            (if w = ''cameraWindow'' \<and> desktopApps_present (snd s4) then [StartWebcam]
             else if w = ''notepadWindow'' \<and> desktopApps_present (snd s4)
             then [SetupDrawingCanvas] else [])\<rparr>))"
  using assms by (simp add: showWindow_def activated_def Let_def)

lemma showWindow_shown:
  assumes "elems (snd s) w = Some el0" "elems (activated s w) w = Some el1"
  shows "elems (snd (showWindow s w)) w =
           Some (el1\<lparr>style_left := Some (jdiv (jsub (innerWidth (snd s)) (r_width (render (snd s) w el1))) 2),
              style_top := Some (jdiv (jsub (innerHeight (snd s)) (r_height (render (snd s) w el1))) 2),
              style_transform := ''none'', style_margin := ''0'',
              style_zIndex := Some (jadd (currentZIndex (fst s)) 1)\<rparr>)"
    and "currentZIndex (fst (showWindow s w)) = jadd (currentZIndex (fst s)) 1"
  using assms
  by (simp_all add: showWindow_unfold [OF assms(1)] Let_def bringToFront_elems bringToFront_wm
        centerWindowNow_elems [OF assms(2)])

lemmas show_eval =
  showWindow_def setupWindow_def makeWindowDraggable_def centerWindowNow_def bringToFront_def
  upd_elem_def position_def Let_def wm_constructor_def demo_page_def demo_window_def
  demo_header_def demo_render_def addEventListener_def jadd_def jsub_def jdiv_def fl_simps

text \<open>
  For every window of the page, \<open>showWindow\<close> marks it active, places it at
  \<open>left = (viewportWidth - renderedWidth) / 2\<close> and
  \<open>top = (viewportHeight - renderedHeight) / 2\<close> (the size as rendered once active), and
  then raises it to the front: it gets the incremented counter as z-index. The position is
  written as computed: a coordinate is negative exactly when the window is larger than the
  viewport in that direction.
\<close>

lemma showWindow_centered:
  assumes "elems (snd s) w = Some el0"
  shows "\<exists>el1 el x y.
           elems (activated s w) w = Some el1 \<and>
           elems (snd (showWindow s w)) w = Some el \<and> cls_active el \<and>
           style_left el = Some x \<and> style_top el = Some y \<and>
           x = jdiv (jsub (innerWidth (snd s)) (r_width (render (snd s) w el1))) 2 \<and>
           y = jdiv (jsub (innerHeight (snd s)) (r_height (render (snd s) w el1))) 2 \<and>
           (x < 0 \<longleftrightarrow> innerWidth (snd s) < r_width (render (snd s) w el1)) \<and>
           (y < 0 \<longleftrightarrow> innerHeight (snd s) < r_height (render (snd s) w el1)) \<and>
           style_zIndex el = Some (jadd (currentZIndex (fst s)) 1) \<and>
           currentZIndex (fst (showWindow s w)) = jadd (currentZIndex (fst s)) 1"
proof -
  from activated_elems [OF assms] obtain el1 where
    el1: "elems (activated s w) w = Some el1" and act: "cls_active el1" by blast
  note sh = showWindow_shown [OF assms el1]
  show ?thesis
    using el1 act sh by (simp add: jdiv2_neg_iff jsub_neg_iff)
qed

text \<open>
  C4. The claim requires the centred position to be clamped so that it is never negative.
  \<open>showWindow\<close> does not clamp: the window of 300 by 200 pixels shown on a viewport of
  1200 by 100 pixels is placed at left = (1200 - 300) / 2 = 450 and
  top = (100 - 200) / 2 = -50, a negative coordinate.
\<close>

theorem showWindow_negative_top:
  "position (showWindow (wm_constructor, demo_page\<lparr>innerHeight := 100\<rparr>) ''win'') ''win''
     = Some (Some 450, Some (- 50)) \<and> (- 50 :: num) < 0"
  by (simp add: show_eval)

text \<open>
  The rest of the window manager treats that position as out of bounds. The window is
  rendered with its top edge at -50, which is the case \<open>rect.top < 0\<close> in which
  \<open>handleResize\<close> recentres a window; and the drag controller forbids it: a drag by zero
  pixels (pointer-down and pointer-move at the same point) moves the window just shown from
  top = -50 to top = 0.
\<close>

lemma shown_window_rendered_top:
  "map_option (\<lambda>el. r_top (render (snd (showWindow (wm_constructor,
       demo_page\<lparr>innerHeight := 100\<rparr>) ''win'')) ''win'' el))
     (elems (snd (showWindow (wm_constructor, demo_page\<lparr>innerHeight := 100\<rparr>) ''win'')) ''win'')
     = Some (- 50)"
  by (simp add: show_eval)

lemma shown_window_drag_snaps:
  "position (drag_session (showWindow (wm_constructor, demo_page\<lparr>innerHeight := 100\<rparr>) ''win'')
               ''win'' (pointer_at 500 0) [pointer_at 500 0] (pointer_at 500 0)) ''win''
     = Some (Some 450, Some 0)"
  by (simp add: wm_eval show_eval)

section \<open>Freezing and unfreezing interaction\<close>

lemma foldl_add_new:
  "distinct xs \<Longrightarrow> set xs \<inter> set ls = {} \<Longrightarrow> foldl addEventListener ls xs = ls @ xs"
proof (induction xs arbitrary: ls)
  case Nil
  then show ?case by simp
next
  case (Cons x xs)
  from Cons.prems have "x \<notin> set ls" by auto
  then have a: "addEventListener ls x = ls @ [x]" by (simp add: addEventListener_def)
  have "foldl addEventListener (ls @ [x]) xs = (ls @ [x]) @ xs"
    using Cons.prems by (intro Cons.IH) auto
  with a show ?case by simp
qed

lemma foldl_remove:
  "foldl removeEventListener ys xs = filter (\<lambda>l. l \<notin> set xs) ys"
proof (induction xs arbitrary: ys)
  case Nil
  then show ?case by simp
next
  case (Cons x xs)
  have "removeEventListener ys x = filter (\<lambda>l. l \<noteq> x) ys"
    by (induction ys) (simp_all add: removeEventListener_def)
  then show ?case by (simp add: Cons.IH)
qed

lemma distinct_blocker_listeners: "distinct (blocker_listeners n)"
  by (simp add: blocker_listeners_def)

lemma set_blocker_listeners:
  "l \<in> set (blocker_listeners n) \<Longrightarrow> \<exists>ty k i. l = (ty, BlockerFn k (n + i), True) \<and> i < 4"
  unfolding blocker_listeners_def
  by (auto intro: exI [of _ 0] exI [of _ 1] exI [of _ 2] exI [of _ 3])

lemma fresh_disjoint:
  assumes "fresh_fns pg" "next_fn pg \<le> n"
  shows "set (blocker_listeners n) \<inter> set (doc_listeners pg) = {}"
proof -
  have "l \<notin> set (doc_listeners pg)" if "l \<in> set (blocker_listeners n)" for l
  proof -
    from set_blocker_listeners [OF that] obtain ty k i where l: "l = (ty, BlockerFn k (n + i), True)"
      by blast
    show ?thesis using assms unfolding l fresh_fns_def by (metis not_le trans_le_add1)
  qed
  then show ?thesis by auto
qed

lemma blockInteractions_fold:
  "doc_listeners (snd (blockInteractions s))
     = foldl addEventListener (doc_listeners (snd s)) (blocker_listeners (next_fn (snd s)))"
  by (simp add: blockInteractions_def Let_def blocker_listeners_def)

lemma blockInteractions_listeners:
  assumes "fresh_fns (snd s)"
  shows "doc_listeners (snd (blockInteractions s))
           = doc_listeners (snd s) @ blocker_listeners (next_fn (snd s))"
  unfolding blockInteractions_fold
  by (intro foldl_add_new distinct_blocker_listeners fresh_disjoint [OF assms]) simp

lemma blockInteractions_fields:
  "next_fn (snd (blockInteractions s)) = next_fn (snd s) + 4"
  "blockers_at (fst (blockInteractions s)) (next_fn (snd s))"
  "isDrawingMode (fst (blockInteractions s)) = isDrawingMode (fst s)"
  "toggleButton (fst (blockInteractions s)) = toggleButton (fst s)"
  by (simp_all add: blockInteractions_def Let_def blockers_at_def)

lemma interceptors_append: "interceptors (xs @ ys) = interceptors xs @ interceptors ys"
  by (simp add: interceptors_def)

lemma interceptors_blocker_listeners: "interceptors (blocker_listeners n) = blocker_listeners n"
  by (simp add: interceptors_def blocker_listeners_def)

lemma interceptors_filter: "interceptors (filter P ls) = filter P (interceptors ls)"
  by (induction ls) (simp_all add: interceptors_def)

lemma blockInteractions_fresh:
  assumes "fresh_fns (snd s)"
  shows "fresh_fns (snd (blockInteractions s))"
  unfolding fresh_fns_def blockInteractions_listeners [OF assms] blockInteractions_fields
proof (intro allI impI)
  fix ty k n c
  assume "(ty, BlockerFn k n, c) \<in> set (doc_listeners (snd s) @ blocker_listeners (next_fn (snd s)))"
  then consider "(ty, BlockerFn k n, c) \<in> set (doc_listeners (snd s))"
    | "(ty, BlockerFn k n, c) \<in> set (blocker_listeners (next_fn (snd s)))" by auto
  then show "n < next_fn (snd s) + 4"
  proof cases
    case 1
    then show ?thesis using assms unfolding fresh_fns_def by fastforce
  next
    case 2
    from set_blocker_listeners [OF this] show ?thesis by auto
  qed
qed

lemma unblockInteractions_none:
  "no_blockers (fst s) \<Longrightarrow> unblockInteractions s = s"
  by (simp add: unblockInteractions_def no_blockers_def)

lemma unblockInteractions_no_blockers: "no_blockers (fst (unblockInteractions s))"
  by (simp add: unblockInteractions_def no_blockers_def Let_def split: option.splits)

lemma unblockInteractions_idem: "unblockInteractions (unblockInteractions s) = unblockInteractions s"
  by (rule unblockInteractions_none) (rule unblockInteractions_no_blockers)

lemma unblockInteractions_fold:
  assumes "blockers_at (fst s) n"
  shows "doc_listeners (snd (unblockInteractions s))
           = foldl removeEventListener (doc_listeners (snd s)) (blocker_listeners n)"
  using assms by (simp add: unblockInteractions_def Let_def blockers_at_def blocker_listeners_def)

lemma unblockInteractions_listeners:
  assumes "blockers_at (fst s) n"
  shows "doc_listeners (snd (unblockInteractions s))
           = filter (\<lambda>l. l \<notin> set (blocker_listeners n)) (doc_listeners (snd s))"
  by (simp add: unblockInteractions_fold [OF assms] foldl_remove)

lemma unblockInteractions_fields:
  "next_fn (snd (unblockInteractions s)) = next_fn (snd s)"
  "isDrawingMode (fst (unblockInteractions s)) = isDrawingMode (fst s)"
  "toggleButton (fst (unblockInteractions s)) = toggleButton (fst s)"
  by (simp_all add: unblockInteractions_def Let_def split: option.splits)

lemma unblock_block_listeners:
  assumes "fresh_fns (snd s)"
  shows "doc_listeners (snd (unblockInteractions (blockInteractions s))) = doc_listeners (snd s)"
proof -
  have d: "set (blocker_listeners (next_fn (snd s))) \<inter> set (doc_listeners (snd s)) = {}"
    by (rule fresh_disjoint [OF assms]) simp
  then have "filter (\<lambda>l. l \<notin> set (blocker_listeners (next_fn (snd s)))) (doc_listeners (snd s))
               = doc_listeners (snd s)"
    by (intro filter_True) auto
  then show ?thesis
    by (simp add: unblockInteractions_listeners [OF blockInteractions_fields(2)]
          blockInteractions_listeners [OF assms])
qed

lemma fresh_fns_cong:
  "doc_listeners pg' = doc_listeners pg \<Longrightarrow> next_fn pg' = next_fn pg \<Longrightarrow>
   fresh_fns pg' = fresh_fns pg"
  by (simp add: fresh_fns_def)

lemma updateButtonIcon_ok:
  assumes "toggleButton (fst s) \<noteq> None"
  shows "\<exists>pg'. updateButtonIcon s emoji = Inr (fst s, pg') \<and>
               doc_listeners pg' = doc_listeners (snd s) \<and> next_fn pg' = next_fn (snd s)"
  using assms by (cases s) (auto simp: updateButtonIcon_def split: option.splits)

lemma savePreference_fields:
  "fst (savePreference s) = fst s"
  "doc_listeners (snd (savePreference s)) = doc_listeners (snd s)"
  "next_fn (snd (savePreference s)) = next_fn (snd s)"
  by (simp_all add: savePreference_def)

lemma dm_inv_enable:
  assumes "toggleButton dm \<noteq> None" "fresh_fns pg" "interceptors (doc_listeners pg) = []"
  shows "dm_inv (savePreference (blockInteractions (dm\<lparr>isDrawingMode := True\<rparr>, pg)))"
proof -
  let ?s = "(dm\<lparr>isDrawingMode := True\<rparr>, pg)"
  have f: "fresh_fns (snd ?s)" using assms(2) by simp
  have "interceptors (doc_listeners (snd (blockInteractions ?s))) = blocker_listeners (next_fn pg)"
    using assms(3)
    by (simp add: blockInteractions_listeners [OF f] interceptors_append
          interceptors_blocker_listeners)
  moreover have "blockers_at (fst (blockInteractions ?s)) (next_fn pg)"
    using blockInteractions_fields(2) [of ?s] by simp
  moreover have "fresh_fns (snd (savePreference (blockInteractions ?s)))"
    using blockInteractions_fresh [OF f]
    by (simp add: fresh_fns_cong [OF savePreference_fields(2,3)])
  ultimately show ?thesis
    using assms(1)
    by (auto simp: dm_inv_def savePreference_fields blockInteractions_fields)
qed

lemma filter_fresh:
  "fresh_fns pg \<Longrightarrow> doc_listeners pg' = filter P (doc_listeners pg) \<Longrightarrow>
   next_fn pg' = next_fn pg \<Longrightarrow> fresh_fns pg'"
  by (auto simp: fresh_fns_def)

lemma dm_inv_disable:
  assumes "toggleButton dm \<noteq> None" "fresh_fns pg" "blockers_at dm n"
    "interceptors (doc_listeners pg) = blocker_listeners n"
  shows "dm_inv (savePreference (unblockInteractions (dm\<lparr>isDrawingMode := False\<rparr>, pg)))"
proof -
  let ?s = "(dm\<lparr>isDrawingMode := False\<rparr>, pg)"
  have b: "blockers_at (fst ?s) n" using assms(3) by (simp add: blockers_at_def)
  note l = unblockInteractions_listeners [OF b]
  have "interceptors (doc_listeners (snd (unblockInteractions ?s))) = []"
    unfolding l by (simp add: interceptors_filter assms(4))
  moreover have f: "fresh_fns (snd (unblockInteractions ?s))"
  proof (rule filter_fresh [OF assms(2)])
    show "doc_listeners (snd (unblockInteractions ?s))
            = filter (\<lambda>l. l \<notin> set (blocker_listeners n)) (doc_listeners pg)"
      using l by simp
    show "next_fn (snd (unblockInteractions ?s)) = next_fn pg"
      by (simp add: unblockInteractions_fields)
  qed
  from f have "fresh_fns (snd (savePreference (unblockInteractions ?s)))"
    by (simp add: fresh_fns_cong [OF savePreference_fields(2,3)])
  ultimately show ?thesis
    using assms(1)
    by (simp add: dm_inv_def savePreference_fields unblockInteractions_fields)
qed

lemma toggle_inv:
  assumes "dm_inv s"
  shows "\<exists>s'. toggle s = Inr s' \<and> dm_inv s' \<and> isDrawingMode (fst s') = (\<not> isDrawingMode (fst s))"
proof (cases "isDrawingMode (fst s)")
  case False
  let ?dm = "(fst s)\<lparr>isDrawingMode := True\<rparr>"
  have tb: "toggleButton (fst (?dm, (snd s)\<lparr>body_drawn_mode := True\<rparr>)) \<noteq> None"
    using assms by (simp add: dm_inv_def)
  from updateButtonIcon_ok [OF tb, of "''computer''"] obtain pg' where
    u: "updateButtonIcon (?dm, (snd s)\<lparr>body_drawn_mode := True\<rparr>) ''computer'' = Inr (?dm, pg')"
    and l: "doc_listeners pg' = doc_listeners (snd s)" and n: "next_fn pg' = next_fn (snd s)"
    by auto
  have t: "toggle s = Inr (savePreference (blockInteractions (?dm, pg')))"
    using False by (simp add: toggle_def enableDrawingMode_def u)
  have "dm_inv (savePreference (blockInteractions (?dm, pg')))"
    using assms False by (intro dm_inv_enable) (simp_all add: dm_inv_def l fresh_fns_cong [OF l n])
  then show ?thesis
    using t False by (simp add: savePreference_fields blockInteractions_fields)
next
  case True
  let ?dm = "(fst s)\<lparr>isDrawingMode := False\<rparr>"
  have tb: "toggleButton (fst (?dm, (snd s)\<lparr>body_drawn_mode := False\<rparr>)) \<noteq> None"
    using assms by (simp add: dm_inv_def)
  from updateButtonIcon_ok [OF tb, of "''pencil''"] obtain pg' where
    u: "updateButtonIcon (?dm, (snd s)\<lparr>body_drawn_mode := False\<rparr>) ''pencil'' = Inr (?dm, pg')"
    and l: "doc_listeners pg' = doc_listeners (snd s)" and n: "next_fn pg' = next_fn (snd s)"
    by auto
  have t: "toggle s = Inr (savePreference (unblockInteractions (?dm, pg')))"
    using True by (simp add: toggle_def disableDrawingMode_def u)
  from assms True obtain k where k: "blockers_at (fst s) k"
    "interceptors (doc_listeners (snd s)) = blocker_listeners k"
    by (auto simp: dm_inv_def)
  have "dm_inv (savePreference (unblockInteractions (?dm, pg')))"
    using assms k by (intro dm_inv_disable [of _ _ k]) (simp_all add: dm_inv_def l fresh_fns_cong [OF l n])
  then show ?thesis
    using t True by (simp add: savePreference_fields unblockInteractions_fields)
qed

lemma toggles_inv:
  "dm_inv s \<Longrightarrow>
   \<exists>s'. toggles n s = Inr s' \<and> dm_inv s' \<and>
        isDrawingMode (fst s') = (if even n then isDrawingMode (fst s) else \<not> isDrawingMode (fst s))"
proof (induction n arbitrary: s)
  case 0
  then show ?case by simp
next
  case (Suc n)
  from toggle_inv [OF Suc.prems] obtain s1 where
    s1: "toggle s = Inr s1" "dm_inv s1" "isDrawingMode (fst s1) = (\<not> isDrawingMode (fst s))"
    by blast
  from Suc.IH [OF s1(2)] s1 show ?case by auto
qed

lemma set_addEventListener: "set (addEventListener ls l) = insert l (set ls)"
  by (auto simp: addEventListener_def)

lemma interceptors_add_other:
  "interceptors (addEventListener ls (ty, OtherFn k, c)) = interceptors ls"
  by (simp add: addEventListener_def interceptors_def)

lemma loadSavedPreference_inv:
  assumes "toggleButton dm \<noteq> None" "\<not> isDrawingMode dm" "fresh_fns pg"
    "interceptors (doc_listeners pg) = []"
  shows "dm_inv (loadSavedPreference (dm, pg))"
proof (cases "localStorage_ok pg \<and> stored_drawingMode pg = Some ''enabled''")
  case False
  then have "loadSavedPreference (dm, pg) = (dm, pg)"
    by (auto simp: loadSavedPreference_def)
  then show ?thesis using assms by (simp add: dm_inv_def)
next
  case True
  let ?dm = "dm\<lparr>isDrawingMode := True\<rparr>"
  have tb: "toggleButton (fst (?dm, pg\<lparr>body_drawn_mode := True\<rparr>)) \<noteq> None"
    using assms(1) by simp
  from updateButtonIcon_ok [OF tb, of "''computer''"] obtain pg' where
    u: "updateButtonIcon (?dm, pg\<lparr>body_drawn_mode := True\<rparr>) ''computer'' = Inr (?dm, pg')"
    and l: "doc_listeners pg' = doc_listeners pg" and n: "next_fn pg' = next_fn pg"
    by auto
  have t: "loadSavedPreference (dm, pg) = blockInteractions (?dm, pg')"
    using True by (simp add: loadSavedPreference_def u)
  have f: "fresh_fns (snd (?dm, pg'))"
    using assms(3) by (simp add: fresh_fns_cong [OF l n])
  have "interceptors (doc_listeners (snd (blockInteractions (?dm, pg'))))
          = blocker_listeners (next_fn pg')"
    using assms(4)
    by (simp add: blockInteractions_listeners [OF f] interceptors_append
          interceptors_blocker_listeners l)
  moreover have "blockers_at (fst (blockInteractions (?dm, pg'))) (next_fn pg')"
    using blockInteractions_fields(2) [of "(?dm, pg')"] by simp
  ultimately show ?thesis
    unfolding t using assms(1) blockInteractions_fresh [OF f]
    by (auto simp: dm_inv_def blockInteractions_fields)
qed

lemma dm_inv_add_other:
  assumes "dm_inv (dm, pg)" "doc_listeners pg' = doc_listeners pg" "next_fn pg' = next_fn pg"
  shows "dm_inv (dm, pg'\<lparr>doc_listeners := addEventListener (doc_listeners pg') (ty, OtherFn k, c),
                          next_fn := Suc (Suc (next_fn pg'))\<rparr>)"
proof -
  have "fresh_fns pg" using assms(1) by (simp add: dm_inv_def)
  then have "fresh_fns (pg'\<lparr>doc_listeners := addEventListener (doc_listeners pg') (ty, OtherFn k, c),
                             next_fn := Suc (Suc (next_fn pg'))\<rparr>)"
    unfolding fresh_fns_def by (auto simp: set_addEventListener assms(2,3)) fastforce
  then show ?thesis
    using assms by (auto simp: dm_inv_def interceptors_add_other split: if_splits)
qed

lemma dm_setup_inv:
  assumes "fresh_fns pg" "interceptors (doc_listeners pg) = []"
    "elems pg ''drawingModeToggle'' \<noteq> None"
  shows "dm_inv (dm_setup (dm_constructor, pg))"
proof -
  let ?s1 = "loadSavedPreference (dm_constructor\<lparr>toggleButton := Some ''drawingModeToggle''\<rparr>, pg)"
  let ?pg2 = "upd_elem (snd ?s1) ''drawingModeToggle''
                (\<lambda>el. el\<lparr>el_listeners := addEventListener (el_listeners el)
                           (''click'', OtherFn (next_fn (snd ?s1)), False)\<rparr>)"
  have i: "dm_inv (fst ?s1, snd ?s1)"
    using assms(1,2) loadSavedPreference_inv [of "dm_constructor\<lparr>toggleButton := Some ''drawingModeToggle''\<rparr>" pg]
    by (simp add: dm_constructor_def)
  have "dm_inv (fst ?s1, ?pg2\<lparr>doc_listeners := addEventListener (doc_listeners ?pg2)
                                  (''keydown'', OtherFn (Suc (next_fn (snd ?s1))), False),
                                next_fn := Suc (Suc (next_fn ?pg2))\<rparr>)"
    by (rule dm_inv_add_other [OF i]) simp_all
  moreover from assms(3) obtain b where "elems pg ''drawingModeToggle'' = Some b" by auto
  ultimately show ?thesis
    by (simp add: dm_setup_def Let_def)
qed

lemma interceptor_types:
  "map fst (blocker_listeners k)
     = [''click'', ''dblclick'', ''mousedown'', ''mouseup'', ''keydown'', ''keypress'', ''keyup'',
        ''submit'', ''contextmenu'']"
  by (simp add: blocker_listeners_def)

lemma blocker_listeners_disjoint:
  "filter (\<lambda>l. l \<notin> set (blocker_listeners (n + 4))) (blocker_listeners n) = blocker_listeners n"
  by (simp add: blocker_listeners_def)

lemma block_twice_interceptors:
  assumes "fresh_fns pg" "interceptors (doc_listeners pg) = []"
  shows "interceptors (doc_listeners (snd (blockInteractions (dm, pg)))) = blocker_listeners (next_fn pg)"
    and "interceptors (doc_listeners (snd (blockInteractions (blockInteractions (dm, pg)))))
           = blocker_listeners (next_fn pg) @ blocker_listeners (next_fn pg + 4)"
    and "interceptors (doc_listeners (snd (unblockInteractions
            (blockInteractions (blockInteractions (dm, pg))))))
           = blocker_listeners (next_fn pg)"
proof -
  have f: "fresh_fns (snd (dm, pg))" using assms(1) by simp
  note f1 = blockInteractions_fresh [OF f]
  show 1: "interceptors (doc_listeners (snd (blockInteractions (dm, pg))))
             = blocker_listeners (next_fn pg)"
    using assms(2)
    by (simp add: blockInteractions_listeners [OF f] interceptors_append
          interceptors_blocker_listeners)
  show 2: "interceptors (doc_listeners (snd (blockInteractions (blockInteractions (dm, pg)))))
             = blocker_listeners (next_fn pg) @ blocker_listeners (next_fn pg + 4)"
    using 1
    by (simp add: blockInteractions_listeners [OF f1] interceptors_append
          interceptors_blocker_listeners blockInteractions_fields)
  have b: "blockers_at (fst (blockInteractions (blockInteractions (dm, pg)))) (next_fn pg + 4)"
    using blockInteractions_fields(2) [of "blockInteractions (dm, pg)"]
    by (simp add: blockInteractions_fields)
  show "interceptors (doc_listeners (snd (unblockInteractions
            (blockInteractions (blockInteractions (dm, pg))))))
          = blocker_listeners (next_fn pg)"
    by (simp add: unblockInteractions_listeners [OF b] interceptors_filter 2
          blocker_listeners_disjoint)
qed

text \<open>
  C3 (as amended). From a page on which no interceptor is registered, one call of
  \<open>blockInteractions\<close> registers each of the nine document-level interceptors (click,
  dblclick, mousedown, mouseup, keydown, keypress, keyup, submit, contextmenu) exactly
  once. A second call without an intervening \<open>unblockInteractions\<close> creates four new
  handler objects and registers a second set of nine, and \<open>unblockInteractions\<close> then
  removes only the second set. Driven by \<open>toggle\<close> after \<open>setup\<close> found the toggle
  button, enabling and disabling alternate: after any number of toggles the nine
  interceptors are registered exactly once if the freeze flag is on, and none is
  registered if it is off.
\<close>

theorem interceptors_registered:
  assumes "fresh_fns pg" "interceptors (doc_listeners pg) = []"
  shows "interceptors (doc_listeners (snd (blockInteractions (dm, pg))))
           = blocker_listeners (next_fn pg) \<and>
         interceptors (doc_listeners (snd (blockInteractions (blockInteractions (dm, pg)))))
           = blocker_listeners (next_fn pg) @ blocker_listeners (next_fn pg + 4) \<and>
         interceptors (doc_listeners (snd (unblockInteractions
             (blockInteractions (blockInteractions (dm, pg))))))
           = blocker_listeners (next_fn pg) \<and>
         (elems pg ''drawingModeToggle'' \<noteq> None \<longrightarrow>
            (\<forall>n. \<exists>s'. toggles n (dm_setup (dm_constructor, pg)) = Inr s' \<and>
               isDrawingMode (fst s')
                 = (even n = isDrawingMode (fst (dm_setup (dm_constructor, pg)))) \<and>
               (if isDrawingMode (fst s')
                then \<exists>k. interceptors (doc_listeners (snd s')) = blocker_listeners k
                else interceptors (doc_listeners (snd s')) = [])))"
proof (intro conjI impI allI)
  fix n
  assume "elems pg ''drawingModeToggle'' \<noteq> None"
  then have "dm_inv (dm_setup (dm_constructor, pg))"
    using assms by (intro dm_setup_inv)
  from toggles_inv [OF this, of n] obtain s' where
    s': "toggles n (dm_setup (dm_constructor, pg)) = Inr s'" "dm_inv s'"
      "isDrawingMode (fst s')
         = (if even n then isDrawingMode (fst (dm_setup (dm_constructor, pg)))
            else \<not> isDrawingMode (fst (dm_setup (dm_constructor, pg))))"
    by blast
  from s'(2) have "if isDrawingMode (fst s')
      then \<exists>k. interceptors (doc_listeners (snd s')) = blocker_listeners k
      else interceptors (doc_listeners (snd s')) = []"
    by (auto simp: dm_inv_def)
  with s'(1,3) show "\<exists>s'. toggles n (dm_setup (dm_constructor, pg)) = Inr s' \<and>
      isDrawingMode (fst s') = (even n = isDrawingMode (fst (dm_setup (dm_constructor, pg)))) \<and>
      (if isDrawingMode (fst s')
       then \<exists>k. interceptors (doc_listeners (snd s')) = blocker_listeners k
       else interceptors (doc_listeners (snd s')) = [])"
    by (intro exI [of _ s']) auto
qed (rule block_twice_interceptors [OF assms])+

lemma dm_demo_page_clean:
  "fresh_fns dm_demo_page" "interceptors (doc_listeners dm_demo_page) = []"
  "elems dm_demo_page ''drawingModeToggle'' \<noteq> None" "next_fn dm_demo_page = 0"
  by (simp_all add: fresh_fns_def interceptors_def dm_demo_page_def demo_page_def)

lemma dm_demo_setup_off: "\<not> isDrawingMode (fst (dm_setup (dm_constructor, dm_demo_page)))"
  by (simp add: dm_setup_def loadSavedPreference_def dm_constructor_def dm_demo_page_def
        demo_page_def Let_def)

theorem interceptors_registered_witness:
  "fresh_fns dm_demo_page \<and> interceptors (doc_listeners dm_demo_page) = [] \<and>
   map fst (interceptors (doc_listeners (snd (blockInteractions (dm_constructor, dm_demo_page)))))
     = [''click'', ''dblclick'', ''mousedown'', ''mouseup'', ''keydown'', ''keypress'', ''keyup'',
        ''submit'', ''contextmenu''] \<and>
   (\<exists>s'. toggles 3 (dm_setup (dm_constructor, dm_demo_page)) = Inr s' \<and>
          isDrawingMode (fst s') \<and>
          map fst (interceptors (doc_listeners (snd s')))
            = [''click'', ''dblclick'', ''mousedown'', ''mouseup'', ''keydown'', ''keypress'',
               ''keyup'', ''submit'', ''contextmenu'']) \<and>
   (\<exists>s'. toggles 4 (dm_setup (dm_constructor, dm_demo_page)) = Inr s' \<and>
          \<not> isDrawingMode (fst s') \<and> interceptors (doc_listeners (snd s')) = [])"
proof -
  note w = interceptors_registered [OF dm_demo_page_clean(1,2), of dm_constructor]
  from w have a: "interceptors (doc_listeners (snd (blockInteractions (dm_constructor, dm_demo_page))))
      = blocker_listeners 0"
    by (simp add: dm_demo_page_clean)
  from w dm_demo_page_clean(3) have t: "\<forall>n. \<exists>s'. toggles n (dm_setup (dm_constructor, dm_demo_page)) = Inr s' \<and>
       isDrawingMode (fst s') = (even n = isDrawingMode (fst (dm_setup (dm_constructor, dm_demo_page)))) \<and>
       (if isDrawingMode (fst s')
        then \<exists>k. interceptors (doc_listeners (snd s')) = blocker_listeners k
        else interceptors (doc_listeners (snd s')) = [])"
    by blast
  from t [rule_format, of 3] obtain s3 where
    s3: "toggles 3 (dm_setup (dm_constructor, dm_demo_page)) = Inr s3"
    and f3: "isDrawingMode (fst s3)
               = (even (3::nat) = isDrawingMode (fst (dm_setup (dm_constructor, dm_demo_page))))"
    and i3: "if isDrawingMode (fst s3)
             then \<exists>k. interceptors (doc_listeners (snd s3)) = blocker_listeners k
             else interceptors (doc_listeners (snd s3)) = []"
    by blast
  from f3 dm_demo_setup_off have on3: "isDrawingMode (fst s3)" by simp
  with i3 obtain k where k: "interceptors (doc_listeners (snd s3)) = blocker_listeners k"
    by auto
  from t [rule_format, of 4] obtain s4 where
    s4: "toggles 4 (dm_setup (dm_constructor, dm_demo_page)) = Inr s4"
    and f4: "isDrawingMode (fst s4)
               = (even (4::nat) = isDrawingMode (fst (dm_setup (dm_constructor, dm_demo_page))))"
    and i4: "if isDrawingMode (fst s4)
             then \<exists>k. interceptors (doc_listeners (snd s4)) = blocker_listeners k
             else interceptors (doc_listeners (snd s4)) = []"
    by blast
  from f4 dm_demo_setup_off have off4: "\<not> isDrawingMode (fst s4)" by simp
  with i4 have e4: "interceptors (doc_listeners (snd s4)) = []" by simp
  from s3 on3 k have "\<exists>s'. toggles 3 (dm_setup (dm_constructor, dm_demo_page)) = Inr s' \<and>
          isDrawingMode (fst s') \<and>
          map fst (interceptors (doc_listeners (snd s')))
            = [''click'', ''dblclick'', ''mousedown'', ''mouseup'', ''keydown'', ''keypress'',
               ''keyup'', ''submit'', ''contextmenu'']"
    by (auto simp: interceptor_types)
  moreover from s4 off4 e4 have "\<exists>s'. toggles 4 (dm_setup (dm_constructor, dm_demo_page)) = Inr s' \<and>
          \<not> isDrawingMode (fst s') \<and> interceptors (doc_listeners (snd s')) = []"
    by auto
  ultimately show ?thesis
    using a dm_demo_page_clean(1,2) by (simp add: interceptor_types)
qed

text \<open>
  Two calls of \<open>blockInteractions\<close> in a row on a page without listeners: the click
  interceptor is registered twice, eighteen interceptors in all.
\<close>

theorem double_enable_counterexample:
  "length (filter (\<lambda>l. fst l = ''click'')
      (doc_listeners (snd (blockInteractions (blockInteractions (dm_constructor, dm_demo_page))))))
     = 2 \<and>
   length (interceptors
      (doc_listeners (snd (blockInteractions (blockInteractions (dm_constructor, dm_demo_page))))))
     = 18"
proof -
  have f: "fresh_fns (snd (dm_constructor, dm_demo_page))"
    by (simp add: dm_demo_page_clean)
  have 1: "doc_listeners (snd (blockInteractions (dm_constructor, dm_demo_page)))
             = doc_listeners dm_demo_page @ blocker_listeners (next_fn dm_demo_page)"
    using blockInteractions_listeners [OF f] by simp
  have 2: "doc_listeners (snd (blockInteractions (blockInteractions (dm_constructor, dm_demo_page))))
             = doc_listeners (snd (blockInteractions (dm_constructor, dm_demo_page)))
               @ blocker_listeners (next_fn (snd (blockInteractions (dm_constructor, dm_demo_page))))"
    by (rule blockInteractions_listeners [OF blockInteractions_fresh [OF f]])
  have 3: "doc_listeners dm_demo_page = []" "next_fn dm_demo_page = 0"
    by (simp_all add: dm_demo_page_def demo_page_def)
  have "doc_listeners (snd (blockInteractions (blockInteractions (dm_constructor, dm_demo_page))))
          = blocker_listeners 0 @ blocker_listeners 4"
    unfolding 2 1 blockInteractions_fields by (simp add: 3)
  then show ?thesis
    by (simp add: blocker_listeners_def interceptors_def)
qed

text \<open>
  C8. \<open>unblockInteractions\<close> has no failing branch: removing a listener never throws,
  and each handler is only used when it is not \<open>null\<close>. Called after zero enables (no
  handler held) it changes nothing; called after one enable it removes exactly the nine
  listeners that \<open>blockInteractions\<close> installed (the document's listeners are again what
  they were) and holds no handler any more, so no interceptor is registered; a second call
  in a row changes nothing more, from any state.
\<close>

theorem unblockInteractions_removes_installed:
  assumes "fresh_fns (snd s)" "no_blockers (fst s)" "interceptors (doc_listeners (snd s)) = []"
  shows "unblockInteractions s = s \<and>
         doc_listeners (snd (unblockInteractions (blockInteractions s))) = doc_listeners (snd s) \<and>
         interceptors (doc_listeners (snd (unblockInteractions (blockInteractions s)))) = [] \<and>
         no_blockers (fst (unblockInteractions (blockInteractions s))) \<and>
         unblockInteractions (unblockInteractions s') = unblockInteractions s'"
  using assms
  by (simp add: unblockInteractions_none unblock_block_listeners unblockInteractions_no_blockers
        unblockInteractions_idem)

theorem unblockInteractions_removes_installed_witness:
  "fresh_fns (snd (dm_constructor, dm_demo_page)) \<and> no_blockers (fst (dm_constructor, dm_demo_page)) \<and>
   interceptors (doc_listeners (snd (dm_constructor, dm_demo_page))) = [] \<and>
   unblockInteractions (dm_constructor, dm_demo_page) = (dm_constructor, dm_demo_page) \<and>
   length (doc_listeners (snd (blockInteractions (dm_constructor, dm_demo_page)))) = 9 \<and>
   doc_listeners (snd (unblockInteractions (blockInteractions (dm_constructor, dm_demo_page)))) = [] \<and>
   unblockInteractions (unblockInteractions (blockInteractions (dm_constructor, dm_demo_page)))
     = unblockInteractions (blockInteractions (dm_constructor, dm_demo_page))"
proof -
  have h: "fresh_fns (snd (dm_constructor, dm_demo_page))"
    "no_blockers (fst (dm_constructor, dm_demo_page))"
    "interceptors (doc_listeners (snd (dm_constructor, dm_demo_page))) = []"
    by (simp_all add: dm_demo_page_clean no_blockers_def dm_constructor_def)
  have d: "doc_listeners dm_demo_page = []"
    by (simp add: dm_demo_page_def demo_page_def)
  have n: "length (doc_listeners (snd (blockInteractions (dm_constructor, dm_demo_page)))) = 9"
    by (simp add: blockInteractions_listeners [OF h(1)] d blocker_listeners_def)
  from unblockInteractions_removes_installed [OF h,
      of "blockInteractions (dm_constructor, dm_demo_page)"] h n
  show ?thesis by (simp add: d)
qed

section \<open>Submitted drawings and the gallery\<close>

lemma foldl_gallery_items:
  "foldl (\<lambda>children (index, d). children @ [gallery_item_of index d]) acc (enumerate k ds)
     = acc @ map (\<lambda>(index, d). gallery_item_of index d) (enumerate k ds)"
  by (induction ds arbitrary: acc k) simp_all

lemma items_of_gallery_items:
  "items_of (map (\<lambda>(index, d). gallery_item_of index d) xs)
     = map (\<lambda>(index, d). \<lparr>gi_src = dr_dataURL d, gi_alt = ''Drawing '' @ dec (index + 1),
                            gi_caption = dr_timestamp d\<rparr>) xs"
  by (induction xs) (auto simp: gallery_item_of_def)

lemma renderGallery_items:
  assumes "aw_grid w \<noteq> None"
  shows "shown_items (renderGallery w)
           = Some (map (\<lambda>(index, d). \<lparr>gi_src = dr_dataURL d, gi_alt = ''Drawing '' @ dec (index + 1),
                                        gi_caption = dr_timestamp d\<rparr>)
                     (enumerate 0 (drawings (aw_apps w))))"
  using assms
  by (auto simp: renderGallery_def shown_items_def foldl_gallery_items items_of_gallery_items)

lemma renderGallery_fields:
  "aw_apps (renderGallery w) = aw_apps w"
  "aw_grid (renderGallery w) = None \<longleftrightarrow> aw_grid w = None"
  by (auto simp: renderGallery_def split: option.splits)

lemma clearNotepad_fields:
  "drawings (aw_apps (clearNotepad w)) = drawings (aw_apps w)"
  "aw_grid (clearNotepad w) = aw_grid w"
  by (simp_all add: clearNotepad_def split: option.splits)

lemma openGallery_eq:
  "\<exists>w'. openGallery w = renderGallery w' \<and> aw_apps w' = aw_apps w \<and> aw_grid w' = aw_grid w"
proof (cases "aw_wm w")
  case None
  show ?thesis
    by (rule exI [of _ "w\<lparr>aw_page := upd_elem (aw_page w) ''galleryWindow''
                                       (\<lambda>el. el\<lparr>cls_active := True\<rparr>)\<rparr>"])
      (simp add: openGallery_def None)
next
  case (Some wm)
  show ?thesis
    by (rule exI [of _ "w\<lparr>aw_wm := Some (fst (showWindow (wm, aw_page w) ''galleryWindow'')),
                        aw_page := snd (showWindow (wm, aw_page w) ''galleryWindow'')\<rparr>"])
      (simp add: openGallery_def Some Let_def)
qed

lemma openGallery_fields:
  "aw_apps (openGallery w) = aw_apps w"
  using openGallery_eq [of w] by (auto simp: renderGallery_fields)

lemma openGallery_items:
  assumes "aw_grid w \<noteq> None"
  shows "shown_items (openGallery w)
           = Some (map (\<lambda>(index, d). \<lparr>gi_src = dr_dataURL d, gi_alt = ''Drawing '' @ dec (index + 1),
                                        gi_caption = dr_timestamp d\<rparr>)
                     (enumerate 0 (drawings (aw_apps w))))"
proof -
  from openGallery_eq [of w] obtain w' where
    w': "openGallery w = renderGallery w'" "aw_apps w' = aw_apps w" "aw_grid w' = aw_grid w"
    by blast
  with assms renderGallery_items [of w'] show ?thesis by simp
qed

lemma submitDrawing_drawings:
  "notepad_canvas (aw_apps w) = Some c \<Longrightarrow>
   drawings (aw_apps (submitDrawing env w))
     = drawings (aw_apps w) @ [\<lparr>dr_id = date_now env, dr_dataURL = toDataURL env ''image/png'' c,
                               dr_timestamp = date_localeString env\<rparr>]"
  "notepad_canvas (aw_apps w) = None \<Longrightarrow>
   drawings (aw_apps (submitDrawing env w)) = drawings (aw_apps w)"
  by (simp_all add: submitDrawing_def Let_def openGallery_fields clearNotepad_fields)

lemma submitDrawing_items:
  assumes "notepad_canvas (aw_apps w) = Some c" "aw_grid w \<noteq> None"
  shows "shown_items (submitDrawing env w)
           = Some (map (\<lambda>(index, d). \<lparr>gi_src = dr_dataURL d, gi_alt = ''Drawing '' @ dec (index + 1),
                                        gi_caption = dr_timestamp d\<rparr>)
                     (enumerate 0 (drawings (aw_apps (submitDrawing env w)))))"
proof -
  let ?d = "\<lparr>dr_id = date_now env, dr_dataURL = toDataURL env ''image/png'' c,
             dr_timestamp = date_localeString env\<rparr>"
  let ?w2 = "clearNotepad (w\<lparr>aw_apps := (aw_apps w)\<lparr>drawings := drawings (aw_apps w) @ [?d]\<rparr>\<rparr>)"
  have g: "aw_grid ?w2 \<noteq> None" using assms(2) by (simp add: clearNotepad_fields)
  have d: "drawings (aw_apps ?w2) = drawings (aw_apps w) @ [?d]"
    by (simp add: clearNotepad_fields)
  have "shown_items (submitDrawing env w) = shown_items (openGallery ?w2)"
    using assms(1) by (simp add: submitDrawing_def Let_def shown_items_def)
  then show ?thesis
    using openGallery_items [OF g] d submitDrawing_drawings(1) [OF assms(1), of env] by simp
qed

lemma submissions_append_only:
  "\<exists>ds. drawings (aw_apps (submissions w envs)) = drawings (aw_apps w) @ ds"
proof (induction envs arbitrary: w)
  case Nil
  then show ?case by simp
next
  case (Cons env envs)
  from Cons.IH [of "submitDrawing env w"] obtain ds where
    ds: "drawings (aw_apps (submissions (submitDrawing env w) envs))
           = drawings (aw_apps (submitDrawing env w)) @ ds" by blast
  show ?case
  proof (cases "notepad_canvas (aw_apps w)")
    case None
    with ds show ?thesis by (simp add: submitDrawing_drawings)
  next
    case (Some c)
    with ds show ?thesis by (simp add: submitDrawing_drawings)
  qed
qed

lemma gallery_sources:
  "map gi_src (map (\<lambda>(index, d). \<lparr>gi_src = dr_dataURL d, gi_alt = ''Drawing '' @ dec (index + 1),
                                     gi_caption = dr_timestamp d\<rparr>) (enumerate k ds))
     = map dr_dataURL ds"
  by (induction ds arbitrary: k) simp_all

text \<open>
  C9. \<open>submitDrawing\<close> on a notepad canvas appends one drawing to \<open>drawings\<close>, whose
  data URL is what \<open>canvas.toDataURL('image/png')\<close> returned; without a canvas it only
  alerts. The list is append-only: the other operations leave it as it is, and any
  sequence of submissions extends it at the end. Rendering the gallery into its grid
  produces exactly one item per stored drawing, in list order (the source of the item
  number \<open>i\<close> is the data URL of drawing number \<open>i\<close>); so does the rendering that
  \<open>submitDrawing\<close> itself triggers, with the new drawing last.
\<close>

theorem gallery_shows_submissions:
  "(\<forall>c. notepad_canvas (aw_apps w) = Some c \<longrightarrow>
      drawings (aw_apps (submitDrawing env w))
        = drawings (aw_apps w) @ [\<lparr>dr_id = date_now env,
                                   dr_dataURL = toDataURL env ''image/png'' c,
                                   dr_timestamp = date_localeString env\<rparr>]) \<and>
   (notepad_canvas (aw_apps w) = None \<longrightarrow>
      drawings (aw_apps (submitDrawing env w)) = drawings (aw_apps w)) \<and>
   (\<exists>ds. drawings (aw_apps (submissions w envs)) = drawings (aw_apps w) @ ds) \<and>
   drawings (aw_apps (clearNotepad w)) = drawings (aw_apps w) \<and>
   drawings (aw_apps (openGallery w)) = drawings (aw_apps w) \<and>
   drawings (aw_apps (renderGallery w)) = drawings (aw_apps w) \<and>
   (aw_grid w \<noteq> None \<longrightarrow>
      shown_items (renderGallery w)
        = Some (map (\<lambda>(index, d). \<lparr>gi_src = dr_dataURL d, gi_alt = ''Drawing '' @ dec (index + 1),
                                     gi_caption = dr_timestamp d\<rparr>)
                  (enumerate 0 (drawings (aw_apps w)))) \<and>
      map_option (map gi_src) (shown_items (renderGallery w))
        = Some (map dr_dataURL (drawings (aw_apps w))) \<and>
      (\<forall>c. notepad_canvas (aw_apps w) = Some c \<longrightarrow>
         map_option (map gi_src) (shown_items (submitDrawing env w))
           = Some (map dr_dataURL (drawings (aw_apps w)) @ [toDataURL env ''image/png'' c])))"
proof (intro conjI impI allI)
  show "\<exists>ds. drawings (aw_apps (submissions w envs)) = drawings (aw_apps w) @ ds"
    by (rule submissions_append_only)
  show "map_option (map gi_src) (shown_items (renderGallery w))
          = Some (map dr_dataURL (drawings (aw_apps w)))"
    if "aw_grid w \<noteq> None"
    unfolding renderGallery_items [OF that] option.map gallery_sources ..
  show "map_option (map gi_src) (shown_items (submitDrawing env w))
          = Some (map dr_dataURL (drawings (aw_apps w)) @ [toDataURL env ''image/png'' c])"
    if "aw_grid w \<noteq> None" "notepad_canvas (aw_apps w) = Some c" for c
    unfolding submitDrawing_items [OF that(2,1)] option.map gallery_sources
      submitDrawing_drawings(1) [OF that(2)]
    by simp
qed (simp_all add: submitDrawing_drawings clearNotepad_fields openGallery_fields
       renderGallery_fields renderGallery_items)

lemma dec_examples: "dec 1 = ''1''" "dec 2 = ''2''" "dec 8 = ''8''"
  by code_simp+

lemma demo_encoded: "demo_encoder ''image/png'' demo_canvas = ''data:image/png;base64,8''"
proof -
  have "length (cv_bitmap demo_canvas) = 8" by (simp add: demo_canvas_def)
  then show ?thesis by (simp add: demo_encoder_def dec_examples)
qed

text \<open>
  One submission from the example canvas into the empty gallery: the list holds the one
  drawing, and the gallery shows the one item with its data URL.
\<close>

theorem gallery_shows_submissions_witness:
  "notepad_canvas (aw_apps demo_apps_world) = Some demo_canvas \<and>
   aw_grid demo_apps_world \<noteq> None \<and>
   drawings (aw_apps (submitDrawing (demo_platform 1000 ''t1'') demo_apps_world))
     = [\<lparr>dr_id = 1000, dr_dataURL = ''data:image/png;base64,8'', dr_timestamp = ''t1''\<rparr>] \<and>
   map_option (map gi_src) (shown_items (submitDrawing (demo_platform 1000 ''t1'') demo_apps_world))
     = Some [''data:image/png;base64,8'']"
proof -
  have c: "notepad_canvas (aw_apps demo_apps_world) = Some demo_canvas"
    and g: "aw_grid demo_apps_world \<noteq> None"
    and d: "drawings (aw_apps demo_apps_world) = []"
    by (simp_all add: demo_apps_world_def apps_constructor_def)
  have e: "toDataURL (demo_platform 1000 ''t1'') ''image/png'' demo_canvas
             = ''data:image/png;base64,8''"
    by (simp add: demo_platform_def demo_encoded)
  from gallery_shows_submissions [of demo_apps_world "demo_platform 1000 ''t1''" "[]"] c g
  have "drawings (aw_apps (submitDrawing (demo_platform 1000 ''t1'') demo_apps_world))
          = drawings (aw_apps demo_apps_world)
            @ [\<lparr>dr_id = date_now (demo_platform 1000 ''t1''),
                dr_dataURL = toDataURL (demo_platform 1000 ''t1'') ''image/png'' demo_canvas,
                dr_timestamp = date_localeString (demo_platform 1000 ''t1'')\<rparr>]"
    and "map_option (map gi_src) (shown_items (submitDrawing (demo_platform 1000 ''t1'') demo_apps_world))
          = Some (map dr_dataURL (drawings (aw_apps demo_apps_world))
                  @ [toDataURL (demo_platform 1000 ''t1'') ''image/png'' demo_canvas])"
    by blast+
  then show ?thesis
    using c g unfolding e d by (simp add: demo_platform_def)
qed

section \<open>The sketch filter\<close>

subsection \<open>What the two loops store\<close>

lemma length_sketch_pixel [simp]: "length (sketch_pixel data w out y x) = length out"
  by (simp add: sketch_pixel_def Let_def)

lemma nth_sketch_pixel:
  assumes "(y * w + x) * 4 + 3 < length out" "c < 4"
  shows "sketch_pixel data w out y x ! (p * 4 + c)
           = (if p = y * w + x then chan (sketch_value data w x y) c else out ! (p * 4 + c))"
proof -
  from assms(2) consider "c = 0" | "c = 1" | "c = 2" | "c = 3" by linarith
  then show ?thesis
    using assms(1) by cases (auto simp: sketch_pixel_def Let_def chan_def nth_list_update)
qed

lemma pixel_index_inj:
  assumes "x < w" "x' < w" "y' * w + x' = y * w + (x::nat)"
  shows "y' = y \<and> x' = x"
proof -
  have "(y' * w + x') div w = y'" "(y * w + x) div w = y"
    using assms(1,2) by simp_all
  with assms(3) have "y' = y" by simp
  with assms(3) show ?thesis by simp
qed

lemma pixel_in_range:
  assumes "x < (w::nat)" "y < (h::nat)"
  shows "(y * w + x) * 4 + 3 < 4 * w * h"
proof -
  have "y * w + x < y * w + w" using assms(1) by simp
  also have "\<dots> = (y + 1) * w" by simp
  also have "\<dots> \<le> h * w" using assms(2) by (intro mult_le_mono1) simp
  finally have "Suc (y * w + x) \<le> w * h" by (simp add: mult.commute)
  then have "4 * Suc (y * w + x) \<le> 4 * (w * h)" by (rule mult_le_mono2)
  then show ?thesis by (simp add: algebra_simps)
qed

lemma sketch_cols:
  assumes "\<forall>x \<in> set xs. x < w" "y < h" "length out = 4 * w * h" "c < 4"
  shows "length (foldl (\<lambda>out x. sketch_pixel data w out y x) out xs) = length out \<and>
         foldl (\<lambda>out x. sketch_pixel data w out y x) out xs ! (p * 4 + c)
           = (if \<exists>x \<in> set xs. p = y * w + x then chan (sketch_value data w (p mod w) (p div w)) c
              else out ! (p * 4 + c))"
  using assms(1)
proof (induction xs rule: rev_induct)
  case Nil
  then show ?case by simp
next
  case (snoc x xs)
  let ?prev = "foldl (\<lambda>out x. sketch_pixel data w out y x) out xs"
  from snoc have IH: "length ?prev = length out"
    "?prev ! (p * 4 + c)
       = (if \<exists>x \<in> set xs. p = y * w + x then chan (sketch_value data w (p mod w) (p div w)) c
          else out ! (p * 4 + c))"
    by auto
  from snoc.prems have x: "x < w" by simp
  have r: "(y * w + x) * 4 + 3 < length ?prev"
    using pixel_in_range [OF x assms(2)] IH(1) assms(3) by simp
  note n = nth_sketch_pixel [OF r assms(4), of data p]
  have len: "length (foldl (\<lambda>out x. sketch_pixel data w out y x) out (xs @ [x])) = length out"
    using IH(1) by simp
  have step: "foldl (\<lambda>out x. sketch_pixel data w out y x) out (xs @ [x]) ! (p * 4 + c)
                = (if p = y * w + x then chan (sketch_value data w x y) c else ?prev ! (p * 4 + c))"
    using n by simp
  show ?case
  proof (cases "p = y * w + x")
    case True
    have dm: "p mod w = x" "p div w = y" using x unfolding True by simp_all
    have "\<exists>x' \<in> set (xs @ [x]). p = y * w + x'" using True by simp
    then show ?thesis using len step unfolding if_P [OF True] dm by simp
  next
    case False
    have "(\<exists>x' \<in> set (xs @ [x]). p = y * w + x') \<longleftrightarrow> (\<exists>x' \<in> set xs. p = y * w + x')"
      using False by auto
    then show ?thesis using len step IH(2) unfolding if_not_P [OF False] by simp
  qed
qed

lemma sketch_row_nth:
  assumes "y < h" "length out = 4 * w * h" "c < 4"
  shows "length (sketch_row data w out y) = length out"
    and "sketch_row data w out y ! (p * 4 + c)
           = (if \<exists>x. 1 \<le> x \<and> x < w - 1 \<and> p = y * w + x
              then chan (sketch_value data w (p mod w) (p div w)) c
              else out ! (p * 4 + c))"
proof -
  have a: "\<forall>x \<in> set [1..<w - 1]. x < w" by auto
  have e: "(\<exists>x \<in> set [1..<w - 1]. p = y * w + x) \<longleftrightarrow> (\<exists>x. 1 \<le> x \<and> x < w - 1 \<and> p = y * w + x)"
    by auto
  from sketch_cols [OF a assms, where data = data and p = p]
  show "length (sketch_row data w out y) = length out"
    and "sketch_row data w out y ! (p * 4 + c)
           = (if \<exists>x. 1 \<le> x \<and> x < w - 1 \<and> p = y * w + x
              then chan (sketch_value data w (p mod w) (p div w)) c
              else out ! (p * 4 + c))"
    unfolding sketch_row_def e by simp_all
qed

lemma sketch_rows_aux:
  assumes "\<forall>y \<in> set ys. y < h" "length out = 4 * w * h" "c < 4"
  shows "length (foldl (\<lambda>out y. sketch_row data w out y) out ys) = length out \<and>
         foldl (\<lambda>out y. sketch_row data w out y) out ys ! (p * 4 + c)
           = (if \<exists>y \<in> set ys. \<exists>x. 1 \<le> x \<and> x < w - 1 \<and> p = y * w + x
              then chan (sketch_value data w (p mod w) (p div w)) c
              else out ! (p * 4 + c))"
  using assms(1)
proof (induction ys rule: rev_induct)
  case Nil
  then show ?case by simp
next
  case (snoc y ys)
  let ?prev = "foldl (\<lambda>out y. sketch_row data w out y) out ys"
  from snoc have IH: "length ?prev = length out"
    "?prev ! (p * 4 + c)
       = (if \<exists>y \<in> set ys. \<exists>x. 1 \<le> x \<and> x < w - 1 \<and> p = y * w + x
          then chan (sketch_value data w (p mod w) (p div w)) c
          else out ! (p * 4 + c))"
    by auto
  from snoc.prems have y: "y < h" by simp
  have l: "length ?prev = 4 * w * h" using IH(1) assms(2) by simp
  note r1 = sketch_row_nth(1) [OF y l assms(3), where data = data]
  note r2 = sketch_row_nth(2) [OF y l assms(3), where data = data and p = p]
  show ?case
  proof (cases "\<exists>x. 1 \<le> x \<and> x < w - 1 \<and> p = y * w + x")
    case True
    then show ?thesis using r1 r2 IH(1) by auto
  next
    case False
    then show ?thesis using r1 r2 IH by auto
  qed
qed

lemma sketch_rows_nth:
  assumes "length out = 4 * w * h" "x < w" "c < 4"
  shows "length (sketch_rows data w h out) = length out"
    and "sketch_rows data w h out ! ((y * w + x) * 4 + c)
           = (if 1 \<le> y \<and> y < h - 1 \<and> 1 \<le> x \<and> x < w - 1 then chan (sketch_value data w x y) c
              else out ! ((y * w + x) * 4 + c))"
proof -
  have a: "\<forall>y \<in> set [1..<h - 1]. y < h" by auto
  have dm: "(y * w + x) mod w = x" "(y * w + x) div w = y" using assms(2) by simp_all
  have e: "(\<exists>y0 \<in> set [1..<h - 1]. \<exists>x0. 1 \<le> x0 \<and> x0 < w - 1 \<and> y * w + x = y0 * w + x0)
             \<longleftrightarrow> (1 \<le> y \<and> y < h - 1 \<and> 1 \<le> x \<and> x < w - 1)"
  proof
    assume "\<exists>y0 \<in> set [1..<h - 1]. \<exists>x0. 1 \<le> x0 \<and> x0 < w - 1 \<and> y * w + x = y0 * w + x0"
    then obtain y0 x0 where o: "1 \<le> y0" "y0 < h - 1" "1 \<le> x0" "x0 < w - 1"
      "y * w + x = y0 * w + x0" by auto
    from o(4) have "x0 < w" by simp
    from pixel_index_inj [OF this assms(2) o(5)] o show "1 \<le> y \<and> y < h - 1 \<and> 1 \<le> x \<and> x < w - 1"
      by simp
  next
    assume "1 \<le> y \<and> y < h - 1 \<and> 1 \<le> x \<and> x < w - 1"
    then show "\<exists>y0 \<in> set [1..<h - 1]. \<exists>x0. 1 \<le> x0 \<and> x0 < w - 1 \<and> y * w + x = y0 * w + x0"
      by auto
  qed
  from sketch_rows_aux [OF a assms(1,3), where data = data and p = "y * w + x"]
  show "length (sketch_rows data w h out) = length out"
    and "sketch_rows data w h out ! ((y * w + x) * 4 + c)
           = (if 1 \<le> y \<and> y < h - 1 \<and> 1 \<le> x \<and> x < w - 1 then chan (sketch_value data w x y) c
              else out ! ((y * w + x) * 4 + c))"
    unfolding sketch_rows_def e dm by simp_all
qed

subsection \<open>Bounds through rounding\<close>

lemma fl_between:
  assumes "0 \<le> a" "a \<le> x" "x \<le> b" "a' \<le> a * (1 - 1 / 2 ^ 53)" "b * (1 + 1 / 2 ^ 53) \<le> b'"
  shows "a' \<le> fl x \<and> fl x \<le> b'"
proof -
  have x0: "0 \<le> x" using assms(1,2) by simp
  define d where "d = x / 2 ^ 53"
  have e: "\<bar>fl x - x\<bar> \<le> d" using fl_err [of x] x0 by (simp add: d_def)
  have xd: "x * (1 - 1 / 2 ^ 53) = x - d" "x * (1 + 1 / 2 ^ 53) = x + d"
    by (simp_all add: d_def algebra_simps)
  have "a * (1 - 1 / 2 ^ 53) \<le> x * (1 - 1 / 2 ^ 53)"
    using assms(2) by (intro mult_right_mono) simp_all
  moreover have "x * (1 + 1 / 2 ^ 53) \<le> b * (1 + 1 / 2 ^ 53)"
    using assms(3) by (intro mult_right_mono) simp_all
  moreover have "x * (1 - 1 / 2 ^ 53) \<le> fl x" "fl x \<le> x * (1 + 1 / 2 ^ 53)"
    unfolding xd using e by linarith+
  ultimately show ?thesis using assms(4,5) by linarith
qed

lemma rte_between:
  assumes "of_int n - 1 / 2 < x" "x < of_int n + 1 / 2"
  shows "roundTiesToEven x = n"
proof -
  have "\<lfloor>x\<rfloor> = n \<or> \<lfloor>x\<rfloor> = n - 1" using assms by linarith
  then show ?thesis
  proof
    assume f: "\<lfloor>x\<rfloor> = n"
    then have "x - of_int \<lfloor>x\<rfloor> < 1 / 2" using assms by simp
    then show ?thesis by (simp add: roundTiesToEven_def f Let_def)
  next
    assume f: "\<lfloor>x\<rfloor> = n - 1"
    then have "1 / 2 < x - of_int \<lfloor>x\<rfloor>" using assms by simp
    then show ?thesis by (simp add: roundTiesToEven_def f Let_def)
  qed
qed

lemma toUint8Clamp_between:
  assumes "of_int n - 1 / 2 < v" "v < of_int n + 1 / 2" "0 \<le> n" "n \<le> 255"
  shows "toUint8Clamp v = word_of_int n"
proof -
  have "roundTiesToEven (min (max v 0) 255) = n"
    using assms by (intro rte_between) (auto simp: min_def max_def)
  then show ?thesis by (simp add: toUint8Clamp_def)
qed

lemma c299: "299 / 1000 - 1 / 10 ^ 9 \<le> fl (299 / 1000) \<and> fl (299 / 1000) \<le> 299 / 1000 + 1 / 10 ^ 9"
  by (rule fl_between [where a = "299 / 1000" and b = "299 / 1000"]) simp_all

lemma applySketchFilter_Inr:
  assumes "img_width img \<noteq> 0" "img_height img \<noteq> 0"
  shows "applySketchFilter img =
           Inr \<lparr>img_width = img_width img, img_height = img_height img,
                img_data = sketch_rows (img_data img) (img_width img) (img_height img)
                             (replicate (4 * img_width img * img_height img) 0)\<rparr>"
  using assms by (simp add: applySketchFilter_def Let_def)

lemma interior_sizes:
  assumes "interior img x y"
  shows "img_width img \<noteq> 0" "img_height img \<noteq> 0" "x < img_width img" "y < img_height img"
  using assms by (auto simp: interior_def)

lemma sketched_pixel:
  assumes "x < w"
  shows "pixel_at \<lparr>img_width = w, img_height = h,
                    img_data = sketch_rows data w h (replicate (4 * w * h) 0)\<rparr> x y
           = (if 1 \<le> y \<and> y < h - 1 \<and> 1 \<le> x \<and> x < w - 1
              then (toUint8Clamp (sketch_value data w x y), toUint8Clamp (sketch_value data w x y),
                    toUint8Clamp (sketch_value data w x y), 255)
              else (replicate (4 * w * h) 0 ! ((y * w + x) * 4),
                    replicate (4 * w * h) 0 ! ((y * w + x) * 4 + 1),
                    replicate (4 * w * h) 0 ! ((y * w + x) * 4 + 2),
                    replicate (4 * w * h) 0 ! ((y * w + x) * 4 + 3)))"
proof -
  have l: "length (replicate (4 * w * h) (0::8 word)) = 4 * w * h" by simp
  note n = sketch_rows_nth(2) [OF l assms, where data = data and y = y]
  have n0: "sketch_rows data w h (replicate (4 * w * h) 0) ! ((y * w + x) * 4)
              = (if 1 \<le> y \<and> y < h - 1 \<and> 1 \<le> x \<and> x < w - 1 then chan (sketch_value data w x y) 0
                 else replicate (4 * w * h) 0 ! ((y * w + x) * 4))"
    using n [of 0] by simp
  show ?thesis
    unfolding pixel_at_def Let_def
    using n0 n [of 1] n [of 2] n [of 3]
    by (simp add: chan_def)
qed

lemma border_pixel_zero:
  assumes "x < w" "y < h"
  shows "replicate (4 * w * h) (0::8 word) ! ((y * w + x) * 4) = 0"
    "replicate (4 * w * h) (0::8 word) ! ((y * w + x) * 4 + 1) = 0"
    "replicate (4 * w * h) (0::8 word) ! ((y * w + x) * 4 + 2) = 0"
    "replicate (4 * w * h) (0::8 word) ! ((y * w + x) * 4 + 3) = 0"
  using pixel_in_range [OF assms] by simp_all

lemma sketch_value_unfold:
  "sketch_value data w x y =
     (if 30 < magnitude_at data w x y then max 0 (jsub 255 (magnitude_at data w x y))
      else min 255 (jadd (gray_at data ((y * w + x) * 4)) 30))"
  by (simp add: sketch_value_def Let_def)

lemma uniform_gray:
  assumes "uniform img r g b" "p < img_width img * img_height img"
  shows "gray_at (img_data img) (p * 4) = luminance r g b"
  using assms by (simp add: uniform_def gray_at_def luminance_def byte_at_def)

lemma neighbours_in_range:
  assumes "1 \<le> x" "x < w - 1" "1 \<le> y" "y < h - 1"
  shows "(y - 1) * w + (x - 1) < w * h" "(y - 1) * w + (x + 1) < w * h"
    "(y + 1) * w + (x - 1) < w * h" "(y + 1) * w + (x + 1) < (w::nat) * h" "y * w + x < w * h"
proof -
  have r: "b * w + a < w * h" if "a < w" "b < h" for a b
  proof -
    have "b * w + a < b * w + w" using that(1) by simp
    also have "\<dots> = (b + 1) * w" by simp
    also have "\<dots> \<le> h * w" using that(2) by (intro mult_le_mono1) simp
    finally show ?thesis by (simp add: mult.commute)
  qed
  have a: "x - 1 < w" "x + 1 < w" "x < w" "y - 1 < h" "y + 1 < h" "y < h"
    using assms by linarith+
  show "(y - 1) * w + (x - 1) < w * h" by (rule r [OF a(1) a(4)])
  show "(y - 1) * w + (x + 1) < w * h" by (rule r [OF a(2) a(4)])
  show "(y + 1) * w + (x - 1) < w * h" by (rule r [OF a(1) a(5)])
  show "(y + 1) * w + (x + 1) < w * h" by (rule r [OF a(2) a(5)])
  show "y * w + x < w * h" by (rule r [OF a(3) a(6)])
qed

lemma uniform_magnitude:
  assumes "uniform img r g b" "interior img x y"
  shows "magnitude_at (img_data img) (img_width img) x y = 0"
proof -
  from assms(2) have i: "1 \<le> x" "x < img_width img - 1" "1 \<le> y" "y < img_height img - 1"
    by (simp_all add: interior_def)
  note nb = neighbours_in_range [OF i]
  note g = uniform_gray [OF assms(1) nb(1)] uniform_gray [OF assms(1) nb(2)]
    uniform_gray [OF assms(1) nb(3)] uniform_gray [OF assms(1) nb(4)]
  show ?thesis
    unfolding magnitude_at_def Let_def g
    by (simp add: jsub_def jmul_def jadd_def jsqrt_def fl_0)
qed

lemma uniform_value:
  assumes "uniform img r g b" "interior img x y"
  shows "sketch_value (img_data img) (img_width img) x y = min 255 (jadd (luminance r g b) 30)"
proof -
  from assms(2) have i: "1 \<le> x" "x < img_width img - 1" "1 \<le> y" "y < img_height img - 1"
    by (simp_all add: interior_def)
  note g = uniform_gray [OF assms(1) neighbours_in_range(5) [OF i]]
  show ?thesis
    unfolding sketch_value_unfold uniform_magnitude [OF assms] g by simp
qed

lemma red_uniform: "uniform red_frame 1 0 0"
  unfolding uniform_def red_frame_def
  by (simp add: eval_nat_numeral All_less_Suc)

subsection \<open>The example frames\<close>

lemma edge_gray_zero:
  "gray_at (img_data edge_frame) 0 = 0" "gray_at (img_data edge_frame) 8 = 0"
  "gray_at (img_data edge_frame) 16 = 0"
  by (simp_all add: gray_at_def byte_at_def edge_frame_def jadd_def jmul_def fl_0)

lemma edge_gray_bottom:
  "gray_at (img_data edge_frame) 24 = fl (fl (fl (52 * fl (299 / 1000))))"
  "gray_at (img_data edge_frame) 32 = fl (fl (fl (52 * fl (299 / 1000))))"
  by (simp_all add: gray_at_def byte_at_def edge_frame_def jadd_def jmul_def fl_0)

lemma edge_gray_bounds:
  "155478 / 10000 \<le> fl (fl (fl (52 * fl (299 / 1000))))"
  "fl (fl (fl (52 * fl (299 / 1000)))) \<le> 155482 / 10000"
proof -
  let ?c = "fl (299 / 1000)"
  have c: "299 / 1000 - 1 / 10 ^ 9 \<le> ?c" "?c \<le> 299 / 1000 + 1 / 10 ^ 9" using c299 by simp_all
  have p0: "155479 / 10000 \<le> 52 * ?c" "52 * ?c \<le> 155481 / 10000" using c by simp_all
  have p1: "1554789 / 100000 \<le> fl (52 * ?c) \<and> fl (52 * ?c) \<le> 1554811 / 100000"
    by (rule fl_between [OF _ p0]) simp_all
  have p2: "1554788 / 100000 \<le> fl (fl (52 * ?c)) \<and> fl (fl (52 * ?c)) \<le> 1554812 / 100000"
    by (rule fl_between [where a = "1554789 / 100000" and b = "1554811 / 100000"])
      (use p1 in simp_all)
  have p3: "1554787 / 100000 \<le> fl (fl (fl (52 * ?c))) \<and> fl (fl (fl (52 * ?c))) \<le> 1554813 / 100000"
    by (rule fl_between [where a = "1554788 / 100000" and b = "1554812 / 100000"])
      (use p2 in simp_all)
  from p3 show "155478 / 10000 \<le> fl (fl (fl (52 * fl (299 / 1000))))"
    "fl (fl (fl (52 * fl (299 / 1000)))) \<le> 155482 / 10000"
    by simp_all
qed

lemma edge_magnitude_eq:
  "magnitude_at (img_data edge_frame) 3 1 1
     = fl (sqrt (fl (fl (fl (fl (gray_at (img_data edge_frame) 24 + gray_at (img_data edge_frame) 24))
                      * fl (fl (gray_at (img_data edge_frame) 24 + gray_at (img_data edge_frame) 24))))))"
  by (simp add: magnitude_at_def Let_def edge_gray_zero edge_gray_bottom jadd_def jsub_def
        jmul_def jsqrt_def fl_0)

lemma edge_magnitude_bounds:
  "3108 / 100 \<le> magnitude_at (img_data edge_frame) 3 1 1"
  "magnitude_at (img_data edge_frame) 3 1 1 \<le> 3111 / 100"
proof -
  define g where "g = gray_at (img_data edge_frame) 24"
  have g: "155478 / 10000 \<le> g" "g \<le> 155482 / 10000"
    unfolding g_def edge_gray_bottom by (rule edge_gray_bounds)+
  have s0: "310956 / 10000 \<le> g + g" "g + g \<le> 310964 / 10000" using g by simp_all
  have s1: "310955 / 10000 \<le> fl (g + g) \<and> fl (g + g) \<le> 310965 / 10000"
    by (rule fl_between [OF _ s0]) simp_all
  define gy where "gy = fl (fl (g + g))"
  have gy: "310954 / 10000 \<le> gy \<and> gy \<le> 310966 / 10000"
    unfolding gy_def
    by (rule fl_between [where a = "310955 / 10000" and b = "310965 / 10000"]) (use s1 in simp_all)
  have "(310954 / 10000) * (310954 / 10000) \<le> gy * gy"
    using gy by (intro mult_mono) simp_all
  then have q0: "96692 / 100 \<le> gy * gy" by simp
  have "gy * gy \<le> (310966 / 10000) * (310966 / 10000)"
    using gy by (intro mult_mono) simp_all
  then have q1: "gy * gy \<le> 967" by simp
  have q2: "96691 / 100 \<le> fl (gy * gy) \<and> fl (gy * gy) \<le> 96701 / 100"
    by (rule fl_between [OF _ q0 q1]) simp_all
  define s where "s = fl (fl (gy * gy))"
  have s: "96690 / 100 \<le> s \<and> s \<le> 96702 / 100"
    unfolding s_def
    by (rule fl_between [where a = "96691 / 100" and b = "96701 / 100"]) (use q2 in simp_all)
  have "(3109 / 100)\<^sup>2 \<le> s" using s by (simp add: power2_eq_square)
  then have r0: "3109 / 100 \<le> sqrt s" by (rule real_le_rsqrt)
  have "s \<le> (311 / 10)\<^sup>2" using s by (simp add: power2_eq_square)
  then have r1: "sqrt s \<le> 311 / 10" by (intro real_le_lsqrt) simp_all
  have m: "3108 / 100 \<le> fl (sqrt s) \<and> fl (sqrt s) \<le> 3111 / 100"
    by (rule fl_between [OF _ r0 r1]) simp_all
  have "magnitude_at (img_data edge_frame) 3 1 1 = fl (sqrt s)"
    unfolding edge_magnitude_eq s_def gy_def g_def ..
  with m show "3108 / 100 \<le> magnitude_at (img_data edge_frame) 3 1 1"
    "magnitude_at (img_data edge_frame) 3 1 1 \<le> 3111 / 100"
    by simp_all
qed

lemma edge_value_bounds:
  "22388 / 100 \<le> sketch_value (img_data edge_frame) 3 1 1"
  "sketch_value (img_data edge_frame) 3 1 1 \<le> 22393 / 100"
  "sketch_value (img_data edge_frame) 3 1 1
     = max 0 (jsub 255 (magnitude_at (img_data edge_frame) 3 1 1))"
proof -
  define m where "m = magnitude_at (img_data edge_frame) 3 1 1"
  have m: "3108 / 100 \<le> m" "m \<le> 3111 / 100"
    unfolding m_def by (rule edge_magnitude_bounds)+
  have d: "22389 / 100 \<le> 255 - m" "255 - m \<le> 22392 / 100" using m by simp_all
  have f: "22388 / 100 \<le> fl (255 - m) \<and> fl (255 - m) \<le> 22393 / 100"
    by (rule fl_between [OF _ d]) simp_all
  have v: "sketch_value (img_data edge_frame) 3 1 1 = max 0 (jsub 255 m)"
    using m by (simp add: sketch_value_def Let_def m_def)
  then show "sketch_value (img_data edge_frame) 3 1 1
     = max 0 (jsub 255 (magnitude_at (img_data edge_frame) 3 1 1))"
    by (simp add: m_def)
  from v f show "22388 / 100 \<le> sketch_value (img_data edge_frame) 3 1 1"
    "sketch_value (img_data edge_frame) 3 1 1 \<le> 22393 / 100"
    by (simp_all add: jsub_def)
qed

lemma edge_channel: "toUint8Clamp (sketch_value (img_data edge_frame) 3 1 1) = 224"
  using toUint8Clamp_between [of 224 "sketch_value (img_data edge_frame) 3 1 1"]
    edge_value_bounds(1,2)
  by simp

lemma center_update:
  "(replicate 36 (0::8 word))[16 := a, 17 := a, 18 := a, 19 := 255]
     = [0, 0, 0, 0,  0, 0, 0, 0,  0, 0, 0, 0,
        0, 0, 0, 0,  a, a, a, 255,  0, 0, 0, 0,
        0, 0, 0, 0,  0, 0, 0, 0,  0, 0, 0, 0]"
  by (simp add: eval_nat_numeral)

lemma sketch_rows_3x3:
  "sketch_rows data 3 3 (replicate 36 0)
     = (replicate 36 0)[16 := toUint8Clamp (sketch_value data 3 1 1),
                        17 := toUint8Clamp (sketch_value data 3 1 1),
                        18 := toUint8Clamp (sketch_value data 3 1 1), 19 := 255]"
proof -
  have u: "[Suc 0..<2] = [Suc 0]" by (simp add: upt_rec)
  show ?thesis
    by (simp add: sketch_rows_def sketch_row_def u sketch_pixel_def Let_def)
qed

lemma edge_sketched: "applySketchFilter edge_frame = Inr (center_only 224)"
proof -
  have "applySketchFilter edge_frame =
          Inr \<lparr>img_width = 3, img_height = 3,
               img_data = sketch_rows (img_data edge_frame) 3 3 (replicate 36 0)\<rparr>"
    by (simp add: applySketchFilter_def Let_def edge_frame_def)
  then show ?thesis
    unfolding sketch_rows_3x3 edge_channel center_update center_only_def .
qed

lemma red_luminance_bounds:
  "3029 / 100 \<le> jadd (luminance 1 0 0) 30" "jadd (luminance 1 0 0) 30 \<le> 3031 / 100"
proof -
  let ?c = "fl (299 / 1000)"
  have l: "luminance 1 0 0 = fl (fl (fl ?c))"
    by (simp add: luminance_def jadd_def jmul_def fl_0)
  have c: "299 / 1000 - 1 / 10 ^ 9 \<le> ?c" "?c \<le> 299 / 1000 + 1 / 10 ^ 9" using c299 by simp_all
  have p1: "2989 / 10000 \<le> fl ?c \<and> fl ?c \<le> 2991 / 10000"
    by (rule fl_between [where a = "299 / 1000 - 1 / 10 ^ 9" and b = "299 / 1000 + 1 / 10 ^ 9"])
      (use c in simp_all)
  have p2: "2988 / 10000 \<le> fl (fl ?c) \<and> fl (fl ?c) \<le> 2992 / 10000"
    by (rule fl_between [where a = "2989 / 10000" and b = "2991 / 10000"]) (use p1 in simp_all)
  have p3: "2987 / 10000 \<le> fl (fl (fl ?c)) \<and> fl (fl (fl ?c)) \<le> 2993 / 10000"
    by (rule fl_between [where a = "2988 / 10000" and b = "2992 / 10000"]) (use p2 in simp_all)
  have s: "302987 / 10000 \<le> fl (fl (fl ?c)) + 30" "fl (fl (fl ?c)) + 30 \<le> 302993 / 10000"
    using p3 by simp_all
  have "3029 / 100 \<le> fl (fl (fl (fl ?c)) + 30) \<and> fl (fl (fl (fl ?c)) + 30) \<le> 3031 / 100"
    by (rule fl_between [OF _ s]) simp_all
  then show "3029 / 100 \<le> jadd (luminance 1 0 0) 30" "jadd (luminance 1 0 0) 30 \<le> 3031 / 100"
    by (simp_all add: l jadd_def)
qed

lemma red_interior: "interior red_frame 1 1"
  by (simp add: interior_def red_frame_def)

lemma red_channel: "toUint8Clamp (sketch_value (img_data red_frame) 3 1 1) = 30"
proof -
  have "sketch_value (img_data red_frame) (img_width red_frame) 1 1
          = min 255 (jadd (luminance 1 0 0) 30)"
    by (rule uniform_value [OF red_uniform red_interior])
  then have v: "sketch_value (img_data red_frame) 3 1 1 = min 255 (jadd (luminance 1 0 0) 30)"
    by (simp add: red_frame_def)
  show ?thesis
    using toUint8Clamp_between [of 30 "sketch_value (img_data red_frame) 3 1 1"]
      red_luminance_bounds
    unfolding v by simp
qed

lemma red_sketched: "applySketchFilter red_frame = Inr (center_only 30)"
proof -
  have "applySketchFilter red_frame =
          Inr \<lparr>img_width = 3, img_height = 3,
               img_data = sketch_rows (img_data red_frame) 3 3 (replicate 36 0)\<rparr>"
    by (simp add: applySketchFilter_def Let_def red_frame_def)
  then show ?thesis
    unfolding sketch_rows_3x3 red_channel center_update center_only_def .
qed

lemma center_only_pixels:
  "pixel_at (center_only a) 1 1 = (a, a, a, 255)"
  "pixel_at (center_only a) 0 0 = (0, 0, 0, 0)"
  by (simp_all add: pixel_at_def center_only_def Let_def)

subsection \<open>Edge pixels\<close>

text \<open>
  C5 (as amended). For every interior pixel of the filter input, with the luminance
  \<open>Y = 0.299 R + 0.587 G + 0.114 B\<close> at its four diagonal neighbours,
  \<open>gx = (Y(topRight) + Y(bottomRight)) - (Y(topLeft) + Y(bottomLeft))\<close>,
  \<open>gy = (Y(bottomLeft) + Y(bottomRight)) - (Y(topLeft) + Y(topRight))\<close> and
  \<open>m = sqrt (gx * gx + gy * gy)\<close>, all in binary64 arithmetic: if \<open>m > 30\<close>, each of the
  three colour channels of the output pixel holds \<open>max(0, 255 - m)\<close> rounded to the
  nearest integer (ties to even), as the byte array stores it, and its alpha is 255.
\<close>

theorem edge_pixel_rounded:
  assumes "wf_image img" "interior img x y"
  shows "\<exists>out. applySketchFilter img = Inr out \<and>
     (let data = img_data img; w = img_width img;
          Ytl = gray_at data (((y - 1) * w + (x - 1)) * 4);
          Ytr = gray_at data (((y - 1) * w + (x + 1)) * 4);
          Ybl = gray_at data (((y + 1) * w + (x - 1)) * 4);
          Ybr = gray_at data (((y + 1) * w + (x + 1)) * 4);
          gx = jsub (jadd Ytr Ybr) (jadd Ytl Ybl);
          gy = jsub (jadd Ybl Ybr) (jadd Ytl Ytr);
          m = jsqrt (jadd (jmul gx gx) (jmul gy gy))
      in 30 < m \<longrightarrow>
           pixel_at out x y = (toUint8Clamp (max 0 (jsub 255 m)), toUint8Clamp (max 0 (jsub 255 m)),
                               toUint8Clamp (max 0 (jsub 255 m)), 255))"
proof -
  note s = interior_sizes [OF assms(2)]
  note r = applySketchFilter_Inr [OF s(1,2)]
  have i: "1 \<le> y \<and> y < img_height img - 1 \<and> 1 \<le> x \<and> x < img_width img - 1"
    using assms(2) by (auto simp: interior_def)
  have m: "magnitude_at (img_data img) (img_width img) x y
      = (let data = img_data img; w = img_width img;
          Ytl = gray_at data (((y - 1) * w + (x - 1)) * 4);
          Ytr = gray_at data (((y - 1) * w + (x + 1)) * 4);
          Ybl = gray_at data (((y + 1) * w + (x - 1)) * 4);
          Ybr = gray_at data (((y + 1) * w + (x + 1)) * 4);
          gx = jsub (jadd Ytr Ybr) (jadd Ytl Ybl);
          gy = jsub (jadd Ybl Ybr) (jadd Ytl Ytr)
         in jsqrt (jadd (jmul gx gx) (jmul gy gy)))"
    unfolding magnitude_at_def Let_def ..
  have p: "pixel_at \<lparr>img_width = img_width img, img_height = img_height img,
                img_data = sketch_rows (img_data img) (img_width img) (img_height img)
                             (replicate (4 * img_width img * img_height img) 0)\<rparr> x y
             = (toUint8Clamp (sketch_value (img_data img) (img_width img) x y),
                toUint8Clamp (sketch_value (img_data img) (img_width img) x y),
                toUint8Clamp (sketch_value (img_data img) (img_width img) x y), 255)"
    unfolding sketched_pixel [OF s(3)] if_P [OF i] ..
  show ?thesis
  proof (intro exI conjI)
    show "applySketchFilter img = Inr \<lparr>img_width = img_width img, img_height = img_height img,
                img_data = sketch_rows (img_data img) (img_width img) (img_height img)
                             (replicate (4 * img_width img * img_height img) 0)\<rparr>"
      by (rule r)
    show "let data = img_data img; w = img_width img;
          Ytl = gray_at data (((y - 1) * w + (x - 1)) * 4);
          Ytr = gray_at data (((y - 1) * w + (x + 1)) * 4);
          Ybl = gray_at data (((y + 1) * w + (x - 1)) * 4);
          Ybr = gray_at data (((y + 1) * w + (x + 1)) * 4);
          gx = jsub (jadd Ytr Ybr) (jadd Ytl Ybl);
          gy = jsub (jadd Ybl Ybr) (jadd Ytl Ytr);
          m = jsqrt (jadd (jmul gx gx) (jmul gy gy))
      in 30 < m \<longrightarrow>
           pixel_at \<lparr>img_width = img_width img, img_height = img_height img,
                img_data = sketch_rows (img_data img) (img_width img) (img_height img)
                             (replicate (4 * img_width img * img_height img) 0)\<rparr> x y
             = (toUint8Clamp (max 0 (jsub 255 m)), toUint8Clamp (max 0 (jsub 255 m)),
                toUint8Clamp (max 0 (jsub 255 m)), 255)"
      unfolding p sketch_value_unfold m Let_def by simp
  qed
qed

theorem edge_pixel_rounded_witness:
  "wf_image edge_frame \<and> interior edge_frame 1 1 \<and>
   30 < magnitude_at (img_data edge_frame) 3 1 1 \<and>
   applySketchFilter edge_frame = Inr (center_only 224) \<and>
   pixel_at (center_only 224) 1 1
     = (toUint8Clamp (max 0 (jsub 255 (magnitude_at (img_data edge_frame) 3 1 1))),
        toUint8Clamp (max 0 (jsub 255 (magnitude_at (img_data edge_frame) 3 1 1))),
        toUint8Clamp (max 0 (jsub 255 (magnitude_at (img_data edge_frame) 3 1 1))), 255)"
proof -
  have wf: "wf_image edge_frame" by (simp add: wf_image_def edge_frame_def)
  have i: "interior edge_frame 1 1" by (simp add: interior_def edge_frame_def)
  have m: "30 < magnitude_at (img_data edge_frame) 3 1 1"
    using edge_magnitude_bounds(1) by simp
  have w: "img_width edge_frame = 3" by (simp add: edge_frame_def)
  from edge_pixel_rounded [OF wf i] obtain out where
    out: "applySketchFilter edge_frame = Inr out"
    and px: "30 < magnitude_at (img_data edge_frame) 3 1 1 \<longrightarrow>
             pixel_at out 1 1
               = (toUint8Clamp (max 0 (jsub 255 (magnitude_at (img_data edge_frame) 3 1 1))),
                  toUint8Clamp (max 0 (jsub 255 (magnitude_at (img_data edge_frame) 3 1 1))),
                  toUint8Clamp (max 0 (jsub 255 (magnitude_at (img_data edge_frame) 3 1 1))), 255)"
    unfolding magnitude_at_def Let_def w by blast
  from out have "out = center_only 224" by (simp add: edge_sketched)
  with px m wf i edge_sketched show ?thesis by simp
qed

text \<open>
  On the boundary frame the centre pixel is an edge with \<open>m\<close> about 31.096: the channels
  hold 224, which is not \<open>max(0, 255 - m)\<close>, about 223.904.
\<close>

theorem edge_pixel_counterexample:
  "applySketchFilter edge_frame = Inr (center_only 224) \<and>
   30 < magnitude_at (img_data edge_frame) 3 1 1 \<and>
   pixel_at (center_only 224) 1 1 = (224, 224, 224, 255) \<and>
   real (unat (224 :: 8 word)) \<noteq> max 0 (jsub 255 (magnitude_at (img_data edge_frame) 3 1 1))"
proof -
  have "max 0 (jsub 255 (magnitude_at (img_data edge_frame) 3 1 1)) \<le> 22393 / 100"
    using edge_value_bounds(2) unfolding edge_value_bounds(3) .
  then have "real (unat (224 :: 8 word))
               \<noteq> max 0 (jsub 255 (magnitude_at (img_data edge_frame) 3 1 1))"
    by simp
  moreover have "30 < magnitude_at (img_data edge_frame) 3 1 1"
    using edge_magnitude_bounds(1) by simp
  ultimately show ?thesis
    using edge_sketched center_only_pixels(1) [of 224] by simp
qed

subsection \<open>Uniform frames\<close>

text \<open>
  C6 (as amended). For every frame whose pixels all have one colour, every interior pixel
  has gradient magnitude 0, so it is classified as flat and never as an edge, and its three
  colour channels hold \<open>min(255, Y + 30)\<close> rounded to the nearest integer (ties to even),
  where \<open>Y\<close> is the luminance of the colour; its alpha is 255.
\<close>

theorem uniform_frame_brightened:
  assumes "wf_image img" "uniform img r g b" "interior img x y"
  shows "\<exists>out. applySketchFilter img = Inr out \<and>
           magnitude_at (img_data img) (img_width img) x y = 0 \<and>
           \<not> 30 < magnitude_at (img_data img) (img_width img) x y \<and>
           pixel_at out x y
             = (toUint8Clamp (min 255 (jadd (luminance r g b) 30)),
                toUint8Clamp (min 255 (jadd (luminance r g b) 30)),
                toUint8Clamp (min 255 (jadd (luminance r g b) 30)), 255)"
proof -
  note s = interior_sizes [OF assms(3)]
  have i: "1 \<le> y \<and> y < img_height img - 1 \<and> 1 \<le> x \<and> x < img_width img - 1"
    using assms(3) by (auto simp: interior_def)
  have p: "pixel_at \<lparr>img_width = img_width img, img_height = img_height img,
                img_data = sketch_rows (img_data img) (img_width img) (img_height img)
                             (replicate (4 * img_width img * img_height img) 0)\<rparr> x y
             = (toUint8Clamp (min 255 (jadd (luminance r g b) 30)),
                toUint8Clamp (min 255 (jadd (luminance r g b) 30)),
                toUint8Clamp (min 255 (jadd (luminance r g b) 30)), 255)"
    unfolding sketched_pixel [OF s(3)] if_P [OF i] uniform_value [OF assms(2,3)] ..
  show ?thesis
    unfolding applySketchFilter_Inr [OF s(1,2)] uniform_magnitude [OF assms(2,3)]
    using p by simp
qed

theorem uniform_frame_brightened_witness:
  "wf_image red_frame \<and> uniform red_frame 1 0 0 \<and> interior red_frame 1 1 \<and>
   applySketchFilter red_frame = Inr (center_only 30) \<and>
   magnitude_at (img_data red_frame) 3 1 1 = 0 \<and>
   pixel_at (center_only 30) 1 1
     = (toUint8Clamp (min 255 (jadd (luminance 1 0 0) 30)),
        toUint8Clamp (min 255 (jadd (luminance 1 0 0) 30)),
        toUint8Clamp (min 255 (jadd (luminance 1 0 0) 30)), 255)"
proof -
  have wf: "wf_image red_frame" by (simp add: wf_image_def red_frame_def)
  have w: "img_width red_frame = 3" by (simp add: red_frame_def)
  from uniform_frame_brightened [OF wf red_uniform red_interior] obtain out where
    out: "applySketchFilter red_frame = Inr out"
    and m: "magnitude_at (img_data red_frame) 3 1 1 = 0"
    and px: "pixel_at out 1 1
               = (toUint8Clamp (min 255 (jadd (luminance 1 0 0) 30)),
                  toUint8Clamp (min 255 (jadd (luminance 1 0 0) 30)),
                  toUint8Clamp (min 255 (jadd (luminance 1 0 0) 30)), 255)"
    unfolding w by blast
  from out have "out = center_only 30" by (simp add: red_sketched)
  with px m wf red_uniform red_interior red_sketched show ?thesis by simp
qed

text \<open>
  On the frame of colour (1, 0, 0) the luminance is about 0.299: the channels of the centre
  pixel hold 30, which is not \<open>min(255, Y + 30)\<close>, about 30.299.
\<close>

theorem uniform_frame_counterexample:
  "uniform red_frame 1 0 0 \<and>
   applySketchFilter red_frame = Inr (center_only 30) \<and>
   pixel_at (center_only 30) 1 1 = (30, 30, 30, 255) \<and>
   real (unat (30 :: 8 word)) \<noteq> min 255 (jadd (luminance 1 0 0) 30)"
proof -
  have "real (unat (30 :: 8 word)) \<noteq> min 255 (jadd (luminance 1 0 0) 30)"
    using red_luminance_bounds(1) by (simp add: min_def)
  then show ?thesis
    using red_uniform red_sketched center_only_pixels(1) [of 30] by simp
qed

subsection \<open>The produced frame\<close>

text \<open>
  C7 (as amended). For every input frame of W by H pixels with W and H at least 1, the
  filter produces an output frame of the same dimensions, with \<open>4 * W * H\<close> bytes. Every
  interior pixel of it is fully opaque (alpha 255). The 1-pixel border is left unprocessed:
  its pixels keep the value of the fresh output buffer, transparent black (0, 0, 0, 0). For
  a width or height of zero the canvas calls throw an IndexSizeError.
\<close>

theorem sketch_output_shape:
  "(img_width img = 0 \<or> img_height img = 0 \<longrightarrow> applySketchFilter img = Inl IndexSizeError) \<and>
   (img_width img \<noteq> 0 \<and> img_height img \<noteq> 0 \<longrightarrow>
      (\<exists>out. applySketchFilter img = Inr out \<and>
         img_width out = img_width img \<and> img_height out = img_height img \<and> wf_image out \<and>
         (\<forall>x y. interior img x y \<longrightarrow> snd (snd (snd (pixel_at out x y))) = 255) \<and>
         (\<forall>x y. on_border img x y \<longrightarrow> pixel_at out x y = (0, 0, 0, 0))))"
proof (intro conjI impI)
  assume "img_width img = 0 \<or> img_height img = 0"
  then show "applySketchFilter img = Inl IndexSizeError"
    by (auto simp: applySketchFilter_def)
next
  assume nz: "img_width img \<noteq> 0 \<and> img_height img \<noteq> 0"
  let ?out = "\<lparr>img_width = img_width img, img_height = img_height img,
               img_data = sketch_rows (img_data img) (img_width img) (img_height img)
                            (replicate (4 * img_width img * img_height img) 0)\<rparr>"
  have r: "applySketchFilter img = Inr ?out"
    using nz by (intro applySketchFilter_Inr) simp_all
  have l: "length (replicate (4 * img_width img * img_height img) (0::8 word))
             = 4 * img_width img * img_height img" by simp
  have wf: "wf_image ?out"
    unfolding wf_image_def
    using sketch_rows_nth(1) [OF l, where x = 0 and c = 0 and data = "img_data img"] nz by simp
  have inner: "snd (snd (snd (pixel_at ?out x y))) = 255" if "interior img x y" for x y
  proof -
    have i: "1 \<le> y \<and> y < img_height img - 1 \<and> 1 \<le> x \<and> x < img_width img - 1"
      using that by (auto simp: interior_def)
    show ?thesis
      unfolding sketched_pixel [OF interior_sizes(3) [OF that]] if_P [OF i] by simp
  qed
  have border: "pixel_at ?out x y = (0, 0, 0, 0)" if "on_border img x y" for x y
  proof -
    from that have b: "x < img_width img" "y < img_height img"
      and n: "\<not> (1 \<le> y \<and> y < img_height img - 1 \<and> 1 \<le> x \<and> x < img_width img - 1)"
      by (auto simp: on_border_def interior_def)
    show ?thesis
      unfolding sketched_pixel [OF b(1)] if_not_P [OF n] border_pixel_zero [OF b] ..
  qed
  show "\<exists>out. applySketchFilter img = Inr out \<and>
         img_width out = img_width img \<and> img_height out = img_height img \<and> wf_image out \<and>
         (\<forall>x y. interior img x y \<longrightarrow> snd (snd (snd (pixel_at out x y))) = 255) \<and>
         (\<forall>x y. on_border img x y \<longrightarrow> pixel_at out x y = (0, 0, 0, 0))"
    using r wf inner border by (intro exI [of _ ?out]) simp
qed

theorem sketch_output_shape_witness:
  "img_width edge_frame \<noteq> 0 \<and> img_height edge_frame \<noteq> 0 \<and>
   interior edge_frame 1 1 \<and> on_border edge_frame 0 0 \<and>
   applySketchFilter edge_frame = Inr (center_only 224) \<and>
   img_width (center_only 224) = img_width edge_frame \<and>
   img_height (center_only 224) = img_height edge_frame \<and>
   wf_image (center_only 224) \<and>
   snd (snd (snd (pixel_at (center_only 224) 1 1))) = 255 \<and>
   pixel_at (center_only 224) 0 0 = (0, 0, 0, 0)"
proof -
  have nz: "img_width edge_frame \<noteq> 0 \<and> img_height edge_frame \<noteq> 0"
    by (simp add: edge_frame_def)
  have i: "interior edge_frame 1 1" and b: "on_border edge_frame 0 0"
    by (simp_all add: interior_def on_border_def edge_frame_def)
  from sketch_output_shape [of edge_frame] nz obtain out where
    out: "applySketchFilter edge_frame = Inr out"
    and sh: "img_width out = img_width edge_frame" "img_height out = img_height edge_frame"
      "wf_image out"
    and inner: "\<forall>x y. interior edge_frame x y \<longrightarrow> snd (snd (snd (pixel_at out x y))) = 255"
    and border: "\<forall>x y. on_border edge_frame x y \<longrightarrow> pixel_at out x y = (0, 0, 0, 0)"
    by blast
  from out have o: "out = center_only 224" by (simp add: edge_sketched)
  from inner i have "snd (snd (snd (pixel_at out 1 1))) = 255" by blast
  moreover from border b have "pixel_at out 0 0 = (0, 0, 0, 0)" by blast
  ultimately show ?thesis
    using nz i b sh edge_sketched unfolding o by simp
qed

text \<open>
  The top left pixel of the frame of colour (1, 0, 0) is opaque in the input and has alpha 0
  in the produced frame.
\<close>

theorem border_alpha_counterexample:
  "applySketchFilter red_frame = Inr (center_only 30) \<and>
   pixel_at red_frame 0 0 = (1, 0, 0, 255) \<and>
   pixel_at (center_only 30) 0 0 = (0, 0, 0, 0) \<and>
   snd (snd (snd (pixel_at (center_only 30) 0 0))) \<noteq> 255"
  using red_sketched center_only_pixels(2) [of 30]
  by (simp add: pixel_at_def red_frame_def Let_def)

end
